theory Spec2Isabelle
  imports Main
begin

section \<open>Python strings\<close>

text \<open>
  A Python \<open>str\<close> is modelled as a \<open>string\<close>, a list of characters; a character stands for
  a code point below 256. The helpers below are the \<open>str\<close> methods the tool functions of
  \<open>backend/tools/auto_gitops_tools.py\<close> call.
\<close>

definition isspace :: "char \<Rightarrow> bool" where
  \<comment> \<open>\<open>str.isspace\<close> on one character, which is also the class \<open>\s\<close> of \<open>re\<close> on a \<open>str\<close> pattern.\<close>
  "isspace c = (of_char c \<in> {9, 10, 11, 12, 13, 28, 29, 30, 31, 32, 133, 160 :: nat})"

definition strip :: "string \<Rightarrow> string" where
  \<comment> \<open>\<open>s.strip()\<close>\<close>
  "strip s = rev (dropWhile isspace (rev (dropWhile isspace s)))"

definition upper_chars :: string where
  "upper_chars = ''ABCDEFGHIJKLMNOPQRSTUVWXYZ'' @
     [CHR 0xC0, CHR 0xC1, CHR 0xC2, CHR 0xC3, CHR 0xC4, CHR 0xC5, CHR 0xC6, CHR 0xC7,
      CHR 0xC8, CHR 0xC9, CHR 0xCA, CHR 0xCB, CHR 0xCC, CHR 0xCD, CHR 0xCE, CHR 0xCF,
      CHR 0xD0, CHR 0xD1, CHR 0xD2, CHR 0xD3, CHR 0xD4, CHR 0xD5, CHR 0xD6,
      CHR 0xD8, CHR 0xD9, CHR 0xDA, CHR 0xDB, CHR 0xDC, CHR 0xDD, CHR 0xDE]"

definition lower_chars :: string where
  "lower_chars = ''abcdefghijklmnopqrstuvwxyz'' @
     [CHR 0xE0, CHR 0xE1, CHR 0xE2, CHR 0xE3, CHR 0xE4, CHR 0xE5, CHR 0xE6, CHR 0xE7,
      CHR 0xE8, CHR 0xE9, CHR 0xEA, CHR 0xEB, CHR 0xEC, CHR 0xED, CHR 0xEE, CHR 0xEF,
      CHR 0xF0, CHR 0xF1, CHR 0xF2, CHR 0xF3, CHR 0xF4, CHR 0xF5, CHR 0xF6,
      CHR 0xF8, CHR 0xF9, CHR 0xFA, CHR 0xFB, CHR 0xFC, CHR 0xFD, CHR 0xFE]"

definition lower_char :: "char \<Rightarrow> char" where
  "lower_char c = (case map_of (zip upper_chars lower_chars) c of Some d \<Rightarrow> d | None \<Rightarrow> c)"

definition lower :: "string \<Rightarrow> string" where
  \<comment> \<open>\<open>s.lower()\<close>\<close>
  "lower s = map lower_char s"

definition replace :: "char \<Rightarrow> char \<Rightarrow> string \<Rightarrow> string" where
  \<comment> \<open>\<open>s.replace(a, b)\<close> for one-character \<open>a\<close> and \<open>b\<close>\<close>
  "replace a b s = map (\<lambda>c. if c = a then b else c) s"

fun join :: "string \<Rightarrow> string list \<Rightarrow> string" where
  \<comment> \<open>\<open>sep.join(xs)\<close>\<close>
  "join sep [] = []"
| "join sep [x] = x"
| "join sep (x # y # ys) = x @ sep @ join sep (y # ys)"

subsection \<open>Decimal numerals: \<open>str(n)\<close> for an \<open>int\<close>\<close>

definition digit_char :: "nat \<Rightarrow> char" where
  "digit_char d = ''0123456789'' ! d"

definition digit_val :: "char \<Rightarrow> nat option" where
  "digit_val c = map_of (zip ''0123456789'' [0, 1, 2, 3, 4, 5, 6, 7, 8, 9]) c"

fun str_nat :: "nat \<Rightarrow> string" where
  "str_nat n = (if n < 10 then [digit_char n] else str_nat (n div 10) @ [digit_char (n mod 10)])"

declare str_nat.simps [simp del]

definition str_int :: "int \<Rightarrow> string" where
  "str_int i = (if i < 0 then CHR ''-'' # str_nat (nat (- i)) else str_nat (nat i))"

section \<open>JSON values and \<open>json.dumps\<close>\<close>

text \<open>
  The values the tools hand to \<open>json.dumps\<close> and get from \<open>json.load\<close>: \<open>None\<close>, booleans,
  integers, strings, lists and dictionaries with string keys. A dictionary is the list of
  its items in insertion order. Floating-point numbers are not part of the model.
\<close>

datatype json = JNull | JBool bool | JInt int | JStr string
  | JArr "json list" | JObj "(string \<times> json) list"

definition hex_char :: "nat \<Rightarrow> char" where
  "hex_char d = ''0123456789abcdef'' ! d"

definition escape_char :: "char \<Rightarrow> string" where
  \<comment> \<open>one character under \<open>ensure_ascii=True\<close>: the short escapes, \<open>\u00XX\<close> outside
      \<open>' '..'~'\<close>, the character itself otherwise\<close>
  "escape_char c =
     (if c = CHR 0x22 then [CHR 0x5C, CHR 0x22]
      else if c = CHR 0x5C then [CHR 0x5C, CHR 0x5C]
      else if c = CHR 0x0A then [CHR 0x5C, CHR ''n'']
      else if c = CHR 0x0D then [CHR 0x5C, CHR ''r'']
      else if c = CHR 0x09 then [CHR 0x5C, CHR ''t'']
      else if c = CHR 0x08 then [CHR 0x5C, CHR ''b'']
      else if c = CHR 0x0C then [CHR 0x5C, CHR ''f'']
      else if (of_char c :: nat) < 32 \<or> 126 < (of_char c :: nat)
        then [CHR 0x5C, CHR ''u'', CHR ''0'', CHR ''0'',
              hex_char (of_char c div 16), hex_char (of_char c mod 16)]
      else [c])"

definition encode_basestring_ascii :: "string \<Rightarrow> string" where
  "encode_basestring_ascii s = CHR 0x22 # concat (map escape_char s) @ [CHR 0x22]"

definition newline_indent :: "nat option \<Rightarrow> nat \<Rightarrow> string" where
  "newline_indent ind lvl = (case ind of None \<Rightarrow> [] | Some n \<Rightarrow> CHR 0x0A # replicate (n * lvl) (CHR '' ''))"

definition item_separator :: "nat option \<Rightarrow> nat \<Rightarrow> string" where
  \<comment> \<open>\<open>', '\<close> without \<open>indent\<close>; \<open>','\<close> and a new indented line with it\<close>
  "item_separator ind lvl = (case ind of None \<Rightarrow> '', '' | Some n \<Rightarrow> CHR '','' # newline_indent ind lvl)"

fun iterencode :: "nat option \<Rightarrow> nat \<Rightarrow> json \<Rightarrow> string" where
  "iterencode ind lvl JNull = ''null''"
| "iterencode ind lvl (JBool b) = (if b then ''true'' else ''false'')"
| "iterencode ind lvl (JInt i) = str_int i"
| "iterencode ind lvl (JStr s) = encode_basestring_ascii s"
| "iterencode ind lvl (JArr xs) =
     (if xs = [] then ''[]''
      else ''['' @ newline_indent ind (Suc lvl)
           @ join (item_separator ind (Suc lvl)) (map (iterencode ind (Suc lvl)) xs)
           @ newline_indent ind lvl @ '']'')"
| "iterencode ind lvl (JObj kvs) =
     (if kvs = [] then ''{}''
      else ''{'' @ newline_indent ind (Suc lvl)
           @ join (item_separator ind (Suc lvl))
               (map (\<lambda>(k, v). encode_basestring_ascii k @ '': '' @ iterencode ind (Suc lvl) v) kvs)
           @ newline_indent ind lvl @ ''}'')"

definition json_dumps :: "json \<Rightarrow> string" where
  \<comment> \<open>\<open>json.dumps(v)\<close>\<close>
  "json_dumps v = iterencode None 0 v"

definition json_dumps_indent :: "nat \<Rightarrow> json \<Rightarrow> string" where
  \<comment> \<open>\<open>json.dumps(v, indent=n)\<close>, the text \<open>json.dump(v, f, indent=n)\<close> writes\<close>
  "json_dumps_indent n v = iterencode (Some n) 0 v"

fun wf_json :: "json \<Rightarrow> bool" where
  \<comment> \<open>the keys of a dictionary are distinct, at every depth: what a Python \<open>dict\<close> is\<close>
  "wf_json (JArr xs) = (\<forall>x \<in> set xs. wf_json x)"
| "wf_json (JObj kvs) = (distinct (map fst kvs) \<and> (\<forall>kv \<in> set kvs. wf_json (snd kv)))"
| "wf_json _ = True"

section \<open>\<open>json.loads\<close>\<close>

text \<open>
  The decoder of the \<open>json\<close> module: a value, with whitespace allowed before and after it
  and around the punctuation of lists and objects. A repeated key of an object keeps its
  first place and its last value, as building a \<open>dict\<close> from the pairs does. \<open>None\<close> is
  \<open>JSONDecodeError\<close>. What the model's values cannot hold has no result here either: a
  number with a fraction or an exponent, \<open>NaN\<close> and \<open>Infinity\<close>, and an escape
  \<open>\uXXXX\<close> of a code point from 256 on.

  The recursive calls that follow a parsed value are guarded by a comparison of lengths,
  which decides termination; \<open>parse_value\<close> always consumes input, so that the guards
  hold whenever they are reached.
\<close>

definition is_ws :: "char \<Rightarrow> bool" where
  "is_ws c = (c = CHR '' '' \<or> c = CHR 0x09 \<or> c = CHR 0x0A \<or> c = CHR 0x0D)"

definition skip_ws :: "string \<Rightarrow> string" where
  "skip_ws s = dropWhile is_ws s"

definition is_digit :: "char \<Rightarrow> bool" where
  "is_digit c = (digit_val c \<noteq> None)"

definition nat_of_digits :: "string \<Rightarrow> nat" where
  "nat_of_digits ds = foldl (\<lambda>a c. 10 * a + (case digit_val c of Some d \<Rightarrow> d | None \<Rightarrow> 0)) 0 ds"

definition hex_val :: "char \<Rightarrow> nat option" where
  "hex_val c = map_of (zip ''0123456789abcdefABCDEF''
     [0, 1, 2, 3, 4, 5, 6, 7, 8, 9, 10, 11, 12, 13, 14, 15, 10, 11, 12, 13, 14, 15]) c"

definition unescape :: "char \<Rightarrow> char option" where
  "unescape e = map_of [(CHR 0x22, CHR 0x22), (CHR 0x5C, CHR 0x5C), (CHR ''/'', CHR ''/''),
     (CHR ''b'', CHR 0x08), (CHR ''f'', CHR 0x0C), (CHR ''n'', CHR 0x0A), (CHR ''r'', CHR 0x0D),
     (CHR ''t'', CHR 0x09)] e"

definition decode_uXXXX :: "string \<Rightarrow> char option" where
  "decode_uXXXX esc =
     (case map hex_val esc of
        [Some a, Some b, Some c, Some d] \<Rightarrow>
          (if a = 0 \<and> b = 0 then Some (char_of (16 * c + d)) else None)
      | _ \<Rightarrow> None)"

fun scanstring :: "string \<Rightarrow> (string \<times> string) option" where
  "scanstring [] = None"
| "scanstring (c # r) =
     (if c = CHR 0x22 then Some ([], r)
      else if c = CHR 0x5C then
        (case r of [] \<Rightarrow> None
         | e # r1 \<Rightarrow>
            if e = CHR ''u'' then
              (case decode_uXXXX (take 4 r1) of None \<Rightarrow> None
               | Some ch \<Rightarrow> (case scanstring (drop 4 r1) of None \<Rightarrow> None
                              | Some (s, r2) \<Rightarrow> Some (ch # s, r2)))
            else
              (case unescape e of None \<Rightarrow> None
               | Some ch \<Rightarrow> (case scanstring r1 of None \<Rightarrow> None
                              | Some (s, r2) \<Rightarrow> Some (ch # s, r2))))
      else if (of_char c :: nat) < 32 then None
      else (case scanstring r of None \<Rightarrow> None | Some (s, r2) \<Rightarrow> Some (c # s, r2)))"

definition float_tail :: "string \<Rightarrow> bool" where
  "float_tail r =
     (case r of
        c # d # r' \<Rightarrow>
          (c = CHR ''.'' \<and> is_digit d)
          \<or> ((c = CHR ''e'' \<or> c = CHR ''E'')
              \<and> (is_digit d \<or> ((d = CHR ''+'' \<or> d = CHR ''-'') \<and> r' \<noteq> [] \<and> is_digit (hd r'))))
      | _ \<Rightarrow> False)"

definition scan_digits :: "string \<Rightarrow> (nat \<times> string) option" where
  "scan_digits s =
     (case s of [] \<Rightarrow> None
      | d # r \<Rightarrow>
         if d = CHR ''0'' then Some (0, r)
         else if is_digit d then Some (nat_of_digits (d # takeWhile is_digit r), dropWhile is_digit r)
         else None)"

definition scan_number :: "string \<Rightarrow> (json \<times> string) option" where
  "scan_number s =
     (case (case s of [] \<Rightarrow> None
            | c # r \<Rightarrow> if c = CHR ''-'' then map_option (\<lambda>(n, r'). (- int n, r')) (scan_digits r)
                       else map_option (\<lambda>(n, r'). (int n, r')) (scan_digits s)) of
        None \<Rightarrow> None
      | Some (i, r) \<Rightarrow> if float_tail r then None else Some (JInt i, r))"

fun dict_set :: "(string \<times> json) list \<Rightarrow> string \<Rightarrow> json \<Rightarrow> (string \<times> json) list" where
  "dict_set [] k v = [(k, v)]"
| "dict_set ((k', v') # kvs) k v = (if k' = k then (k, v) # kvs else (k', v') # dict_set kvs k v)"

definition dict_of_pairs :: "(string \<times> json) list \<Rightarrow> (string \<times> json) list" where
  "dict_of_pairs ps = foldl (\<lambda>d (k, v). dict_set d k v) [] ps"

lemma dropWhile_Cons_shorter: "dropWhile P r = x # xs \<Longrightarrow> length xs < length r"
  using length_dropWhile_le[of P r] by simp

lemma dropWhile_shorter: "length xs < n \<Longrightarrow> length (dropWhile P xs) < n"
  using length_dropWhile_le[of P xs] by simp

function parse_value :: "string \<Rightarrow> (json \<times> string) option"
  and parse_items :: "string \<Rightarrow> (json list \<times> string) option"
  and parse_members :: "string \<Rightarrow> ((string \<times> json) list \<times> string) option"
where
  "parse_value [] = None"
| "parse_value (c # r) =
     (if c = CHR 0x22 then
        (case scanstring r of None \<Rightarrow> None | Some (s, r1) \<Rightarrow> Some (JStr s, r1))
      else if c = CHR ''{'' then
        (case skip_ws r of
           [] \<Rightarrow> None
         | d # r1 \<Rightarrow>
            if d = CHR ''}'' then Some (JObj [], r1)
            else (case parse_members (d # r1) of None \<Rightarrow> None
                  | Some (ps, r2) \<Rightarrow> Some (JObj (dict_of_pairs ps), r2)))
      else if c = CHR ''['' then
        (case skip_ws r of
           [] \<Rightarrow> None
         | d # r1 \<Rightarrow>
            if d = CHR '']'' then Some (JArr [], r1)
            else (case parse_items (d # r1) of None \<Rightarrow> None
                  | Some (vs, r2) \<Rightarrow> Some (JArr vs, r2)))
      else if c = CHR ''n'' \<and> take 3 r = ''ull'' then Some (JNull, drop 3 r)
      else if c = CHR ''t'' \<and> take 3 r = ''rue'' then Some (JBool True, drop 3 r)
      else if c = CHR ''f'' \<and> take 4 r = ''alse'' then Some (JBool False, drop 4 r)
      else scan_number (c # r))"
| "parse_items s =
     (case parse_value s of None \<Rightarrow> None
      | Some (v, r) \<Rightarrow>
         (case skip_ws r of
            [] \<Rightarrow> None
          | d # r1 \<Rightarrow>
             if d = CHR '']'' then Some ([v], r1)
             else if d = CHR '','' \<and> length r1 < length s then
               (case parse_items (skip_ws r1) of None \<Rightarrow> None
                | Some (vs, r2) \<Rightarrow> Some (v # vs, r2))
             else None))"
| "parse_members s =
     (case s of
        [] \<Rightarrow> None
      | q # r \<Rightarrow>
         if q \<noteq> CHR 0x22 then None
         else
           (case scanstring r of None \<Rightarrow> None
            | Some (k, r1) \<Rightarrow>
               (case skip_ws r1 of
                  [] \<Rightarrow> None
                | col # r2 \<Rightarrow>
                   if col \<noteq> CHR '':'' \<or> \<not> length r2 < length s then None
                   else
                     (case parse_value (skip_ws r2) of None \<Rightarrow> None
                      | Some (v, r3) \<Rightarrow>
                         (case skip_ws r3 of
                            [] \<Rightarrow> None
                          | d # r4 \<Rightarrow>
                             if d = CHR ''}'' then Some ([(k, v)], r4)
                             else if d = CHR '','' \<and> length r4 < length s then
                               (case parse_members (skip_ws r4) of None \<Rightarrow> None
                                | Some (ps, r5) \<Rightarrow> Some ((k, v) # ps, r5))
                             else None)))))"
  by pat_completeness auto
termination
  apply (relation "measure (\<lambda>x. case x of Inl s \<Rightarrow> 2 * length s
                                 | Inr (Inl s) \<Rightarrow> 2 * length s + 1
                                 | Inr (Inr s) \<Rightarrow> 2 * length s + 1)")
  apply (auto simp: skip_ws_def dest!: dropWhile_Cons_shorter)
  subgoal for s a b r using length_dropWhile_le[of is_ws r] by simp
  subgoal for r a b r' using length_dropWhile_le[of is_ws r'] by simp
  subgoal for r a b r' v r'' r''' using length_dropWhile_le[of is_ws r'''] by simp
  done

declare parse_items.simps [simp del] parse_members.simps [simp del]

definition json_loads :: "string \<Rightarrow> json option" where
  \<comment> \<open>\<open>json.loads(s)\<close>, and \<open>json.load(f)\<close> on the text of \<open>f\<close>\<close>
  "json_loads s =
     (case parse_value (skip_ws s) of None \<Rightarrow> None
      | Some (v, r) \<Rightarrow> if skip_ws r = [] then Some v else None)"

subsection \<open>Notions used in the proofs about the decoder\<close>

text \<open>
  What may follow a number or a value in the text \<open>json.dumps\<close> writes, what such a text
  starts with, and the text of one item of a dictionary.
\<close>

definition digits_end :: "string \<Rightarrow> bool" where
  "digits_end r \<longleftrightarrow> (case r of [] \<Rightarrow> True | c # _ \<Rightarrow> \<not> is_digit c)"

definition number_end :: "string \<Rightarrow> bool" where
  "number_end r \<longleftrightarrow> (case r of [] \<Rightarrow> True
     | c # _ \<Rightarrow> \<not> is_digit c \<and> c \<noteq> CHR ''.'' \<and> c \<noteq> CHR ''e'' \<and> c \<noteq> CHR ''E'')"

definition scan_cons :: "char \<Rightarrow> (string \<times> string) option \<Rightarrow> (string \<times> string) option" where
  "scan_cons c x = (case x of None \<Rightarrow> None | Some (s, r) \<Rightarrow> Some (c # s, r))"

definition value_end :: "string \<Rightarrow> bool" where
  "value_end r \<longleftrightarrow> (case r of [] \<Rightarrow> True
     | c # _ \<Rightarrow> c = CHR '','' \<or> c = CHR '']'' \<or> c = CHR ''}'' \<or> is_ws c)"

definition starts_value :: "string \<Rightarrow> bool" where
  "starts_value e \<longleftrightarrow> (\<exists>c cs. e = c # cs \<and> \<not> is_ws c \<and> c \<noteq> CHR '']'' \<and> c \<noteq> CHR ''}'')"

definition encode_member :: "(json \<Rightarrow> string) \<Rightarrow> string \<times> json \<Rightarrow> string" where
  "encode_member enc kv = encode_basestring_ascii (fst kv) @ '': '' @ enc (snd kv)"

section \<open>Regular expressions: \<open>re.match\<close>\<close>

text \<open>
  The fragment of \<open>re\<close> the commit-message pattern is written in. \<open>run\<close> lists what is left
  of the subject after each way the expression can match at its start, in the order the
  backtracking matcher tries them; \<open>re.match\<close> succeeds when there is one.
\<close>

datatype cclass = CChar char | CDot | CSpace

fun cc_match :: "bool \<Rightarrow> cclass \<Rightarrow> char \<Rightarrow> bool" where
  "cc_match ic (CChar c) x = (if ic then lower_char x = lower_char c else x = c)"
| "cc_match ic CDot x = (x \<noteq> CHR 0x0A)"
| "cc_match ic CSpace x = isspace x"

datatype regex = Never | One cclass | Many1 cclass | Seq regex regex | Alt regex regex | Opt regex | Eps

fun many1 :: "bool \<Rightarrow> cclass \<Rightarrow> string \<Rightarrow> string list" where
  "many1 ic c [] = []"
| "many1 ic c (x # xs) = (if cc_match ic c x then many1 ic c xs @ [xs] else [])"

fun run :: "bool \<Rightarrow> regex \<Rightarrow> string \<Rightarrow> string list" where
  "run ic Never s = []"
| "run ic (One c) s = (case s of [] \<Rightarrow> [] | x # xs \<Rightarrow> if cc_match ic c x then [xs] else [])"
| "run ic (Many1 c) s = many1 ic c s"
| "run ic (Seq a b) s = concat (map (run ic b) (run ic a s))"
| "run ic (Alt a b) s = run ic a s @ run ic b s"
| "run ic (Opt a) s = run ic a s @ [s]"
| "run ic Eps s = [s]"

definition re_match :: "bool \<Rightarrow> regex \<Rightarrow> string \<Rightarrow> bool" where
  \<comment> \<open>\<open>re.match(p, s, flags)\<close> is not \<open>None\<close>; the flag is \<open>re.IGNORECASE\<close>\<close>
  "re_match ic p s = (run ic p s \<noteq> [])"

fun lit :: "string \<Rightarrow> regex" where
  "lit [] = Eps"
| "lit (c # cs) = Seq (One (CChar c)) (lit cs)"

fun alts :: "regex list \<Rightarrow> regex" where
  "alts [] = Never"
| "alts [r] = r"
| "alts (r # rs) = Alt r (alts rs)"

section \<open>The commit message validator\<close>

definition commit_types :: "string list" where
  "commit_types = [''feat'', ''fix'', ''chore'', ''docs'', ''refactor'', ''style'', ''perf'', ''test'']"

definition scope_rx :: regex where
  \<comment> \<open>\<open>\(.+\)\<close>\<close>
  "scope_rx = Seq (One (CChar (CHR ''(''))) (Seq (Many1 CDot) (One (CChar (CHR '')''))))"

definition pattern :: regex where
  \<comment> \<open>\<open>^(feat|fix|chore|docs|refactor|style|perf|test)(\(.+\))?:\s.+\<close>\<close>
  "pattern =
     Seq (alts (map lit commit_types))
       (Seq (Opt scope_rx)
         (Seq (One (CChar (CHR '':''))) (Seq (One CSpace) (Many1 CDot))))"

definition reason_text :: string where
  "reason_text = ''Commit message must follow Conventional Commits, e.g. '' @ [CHR 0x27]
     @ ''feat(module): short description'' @ [CHR 0x27]"

definition validate_commit_message :: "string \<Rightarrow> string" where
  "validate_commit_message message =
     (if re_match True pattern (strip message)
      then json_dumps (JObj [(''valid'', JBool True)])
      else json_dumps (JObj [(''valid'', JBool False), (''reason'', JStr reason_text)]))"

subsection \<open>The grammar of the validator, in words\<close>

definition scope_text :: "string \<Rightarrow> bool" where
  \<comment> \<open>a scope: one or more characters other than a newline, in parentheses\<close>
  "scope_text sc \<longleftrightarrow> (\<exists>b. b \<noteq> [] \<and> CHR 0x0A \<notin> set b \<and> sc = CHR ''('' # b @ '')'')"

definition conventional_prefix :: "string \<Rightarrow> bool" where
  \<comment> \<open>what the pattern accepts: a type, an optional scope, a colon, one whitespace
      character, one character that is not a newline, and then anything\<close>
  "conventional_prefix s \<longleftrightarrow>
     (\<exists>ty sc w d rest. s = ty @ sc @ [CHR '':'', w, d] @ rest \<and> lower ty \<in> set commit_types
        \<and> (sc = [] \<or> scope_text sc) \<and> isspace w \<and> d \<noteq> CHR 0x0A)"

definition spec_conventional_form :: "string \<Rightarrow> bool" where
  \<comment> \<open>the grammar as the specification words it: \<open>type[(scope)]: description\<close>, the scope a
      non-empty text in parentheses, the description one or more characters after a
      colon and a space\<close>
  "spec_conventional_form s \<longleftrightarrow>
     (\<exists>ty sc d. s = ty @ sc @ '': '' @ d \<and> lower ty \<in> set commit_types
        \<and> (sc = [] \<or> (\<exists>b. b \<noteq> [] \<and> sc = CHR ''('' # b @ '')'')) \<and> d \<noteq> [])"

section \<open>The file system and the clock\<close>

text \<open>
  The tools keep their state in files, so the state of the model is a file system: a
  working directory and a tree of nodes, each a directory or a file with its text. A
  location is the list of names from the root to the node. Path strings are resolved the
  POSIX way: \<open>/\<close> separates names, an empty name and \<open>.\<close> stay where they are, \<open>..\<close>
  goes to the parent, and every name on the way must be a directory. There are no symbolic
  links, permissions or full disks in the model, and every failure of the operating system
  is the one error \<open>OSError\<close> (in Python \<open>FileNotFoundError\<close>, \<open>NotADirectoryError\<close>,
  \<open>IsADirectoryError\<close> and \<open>FileExistsError\<close> are its subclasses).
\<close>

datatype error = OSError | JSONDecodeError | AttributeError | TypeError

datatype node = Dir | File string

type_synonym location = "string list"

record filesystem =
  nodes :: "location \<Rightarrow> node option"
  cwd :: location

definition node_at :: "filesystem \<Rightarrow> location \<Rightarrow> node option" where
  \<comment> \<open>the root is always a directory\<close>
  "node_at fs l = (if l = [] then Some Dir else nodes fs l)"

fun components :: "string \<Rightarrow> string list" where
  \<comment> \<open>the names of a path, \<open>p.split('/')\<close>\<close>
  "components [] = [[]]"
| "components (c # s) =
     (if c = CHR ''/'' then [] # components s
      else (case components s of [] \<Rightarrow> [[c]] | x # xs \<Rightarrow> (c # x) # xs))"

definition start :: "filesystem \<Rightarrow> string \<Rightarrow> location" where
  \<comment> \<open>an absolute path starts at the root, a relative one at the working directory\<close>
  "start fs p = (if p \<noteq> [] \<and> hd p = CHR ''/'' then [] else cwd fs)"

fun walk :: "filesystem \<Rightarrow> location \<Rightarrow> string list \<Rightarrow> error + location" where
  \<comment> \<open>follow directory names from a location\<close>
  "walk fs cur [] = Inr cur"
| "walk fs cur (c # cs) =
     (if c = [] \<or> c = ''.'' then walk fs cur cs
      else if c = ''..'' then walk fs (butlast cur) cs
      else if node_at fs (cur @ [c]) = Some Dir then walk fs (cur @ [c]) cs
      else Inl OSError)"

definition names_directory :: "string \<Rightarrow> bool" where
  \<comment> \<open>a last name that can only name a directory: the path ends in \<open>/\<close>, \<open>.\<close> or \<open>..\<close>\<close>
  "names_directory c = (c = [] \<or> c = ''.'' \<or> c = ''..'')"

definition path_exists :: "filesystem \<Rightarrow> string \<Rightarrow> bool" where
  \<comment> \<open>\<open>os.path.exists(p)\<close>\<close>
  "path_exists fs p =
     (p \<noteq> [] \<and>
      (case walk fs (start fs p) (butlast (components p)) of
         Inl e \<Rightarrow> False
       | Inr d \<Rightarrow> names_directory (last (components p))
                  \<or> node_at fs (d @ [last (components p)]) \<noteq> None))"

definition file_location :: "filesystem \<Rightarrow> string \<Rightarrow> error + location" where
  \<comment> \<open>where \<open>open(p)\<close> looks for a file: the directories of the path must exist\<close>
  "file_location fs p =
     (if p = [] then Inl OSError
      else (case walk fs (start fs p) (butlast (components p)) of
              Inl e \<Rightarrow> Inl e
            | Inr d \<Rightarrow> if names_directory (last (components p)) then Inl OSError
                       else Inr (d @ [last (components p)])))"

definition read_file :: "filesystem \<Rightarrow> string \<Rightarrow> error + string" where
  \<comment> \<open>\<open>with open(p, "r") as f: f.read()\<close>\<close>
  "read_file fs p =
     (case file_location fs p of
        Inl e \<Rightarrow> Inl e
      | Inr l \<Rightarrow> (case node_at fs l of Some (File text) \<Rightarrow> Inr text | _ \<Rightarrow> Inl OSError))"

definition write_file :: "filesystem \<Rightarrow> string \<Rightarrow> string \<Rightarrow> error + filesystem" where
  \<comment> \<open>\<open>with open(p, "w") as f: f.write(text)\<close>: the file is created or replaced\<close>
  "write_file fs p text =
     (case file_location fs p of
        Inl e \<Rightarrow> Inl e
      | Inr l \<Rightarrow> (case node_at fs l of
                    Some Dir \<Rightarrow> Inl OSError
                  | _ \<Rightarrow> Inr (fs\<lparr>nodes := (nodes fs)(l \<mapsto> File text)\<rparr>)))"

fun mkdirs :: "filesystem \<Rightarrow> location \<Rightarrow> string list \<Rightarrow> error + filesystem" where
  \<comment> \<open>follow the names, creating the directories that are missing\<close>
  "mkdirs fs cur [] = Inr fs"
| "mkdirs fs cur (c # cs) =
     (if c = [] \<or> c = ''.'' then mkdirs fs cur cs
      else if c = ''..'' then mkdirs fs (butlast cur) cs
      else (case node_at fs (cur @ [c]) of
              Some Dir \<Rightarrow> mkdirs fs (cur @ [c]) cs
            | Some (File text) \<Rightarrow> Inl OSError
            | None \<Rightarrow> mkdirs (fs\<lparr>nodes := (nodes fs)(cur @ [c] \<mapsto> Dir)\<rparr>) (cur @ [c]) cs))"

definition makedirs :: "filesystem \<Rightarrow> string \<Rightarrow> error + filesystem" where
  \<comment> \<open>\<open>os.makedirs(p, exist_ok=True)\<close>; the empty path is an error\<close>
  "makedirs fs p = (if p = [] then Inl OSError else mkdirs fs (start fs p) (components p))"

definition dirname :: "string \<Rightarrow> string" where
  \<comment> \<open>\<open>os.path.dirname(p)\<close>: up to the last \<open>/\<close>, without trailing slashes unless there is
      nothing else\<close>
  "dirname p =
     (let head = rev (dropWhile (\<lambda>c. c \<noteq> CHR ''/'') (rev p))
      in if head \<noteq> [] \<and> (\<exists>c \<in> set head. c \<noteq> CHR ''/'')
         then rev (dropWhile (\<lambda>c. c = CHR ''/'') (rev head)) else head)"

definition path_join :: "string \<Rightarrow> string \<Rightarrow> string" where
  \<comment> \<open>\<open>os.path.join(a, b)\<close>\<close>
  "path_join a b =
     (if b \<noteq> [] \<and> hd b = CHR ''/'' then b
      else if a = [] \<or> last a = CHR ''/'' then a @ b
      else a @ ''/'' @ b)"

text \<open>
  Two notions for the proofs: a file system that has the nodes of another and, beyond
  them, only new directories; and the two parts \<open>os.path.dirname\<close> cuts a path into, at
  its last \<open>/\<close>.
\<close>

definition extends :: "filesystem \<Rightarrow> filesystem \<Rightarrow> bool" where
  "extends fs fs' \<longleftrightarrow> cwd fs' = cwd fs \<and>
     (\<forall>l. nodes fs' l = nodes fs l \<or> (nodes fs l = None \<and> nodes fs' l = Some Dir))"

definition head_part :: "string \<Rightarrow> string" where
  "head_part p = rev (dropWhile (\<lambda>c. c \<noteq> CHR ''/'') (rev p))"

definition tail_part :: "string \<Rightarrow> string" where
  "tail_part p = rev (takeWhile (\<lambda>c. c \<noteq> CHR ''/'') (rev p))"

text \<open>
  A reading of the clock, \<open>datetime.utcnow()\<close>, and the two ways the tools print it.
\<close>

record datetime =
  year :: nat
  month :: nat
  day :: nat
  hour :: nat
  minute :: nat
  second :: nat
  microsecond :: nat

definition zero_pad :: "nat \<Rightarrow> nat \<Rightarrow> string" where
  \<comment> \<open>\<open>'%0wd' % n\<close>\<close>
  "zero_pad w n = replicate (w - length (str_nat n)) (CHR ''0'') @ str_nat n"

definition strftime_compact :: "datetime \<Rightarrow> string" where
  \<comment> \<open>\<open>now.strftime("%Y%m%dT%H%M%SZ")\<close>; \<open>%Y\<close> is the year as the C library prints it,
      without padding, the other fields have two digits\<close>
  "strftime_compact now =
     str_nat (year now) @ zero_pad 2 (month now) @ zero_pad 2 (day now) @ ''T''
     @ zero_pad 2 (hour now) @ zero_pad 2 (minute now) @ zero_pad 2 (second now) @ ''Z''"

definition isoformat :: "datetime \<Rightarrow> string" where
  \<comment> \<open>\<open>now.isoformat()\<close>: the microseconds are printed unless they are zero\<close>
  "isoformat now =
     zero_pad 4 (year now) @ ''-'' @ zero_pad 2 (month now) @ ''-'' @ zero_pad 2 (day now) @ ''T''
     @ zero_pad 2 (hour now) @ '':'' @ zero_pad 2 (minute now) @ '':'' @ zero_pad 2 (second now)
     @ (if microsecond now = 0 then [] else ''.'' @ zero_pad 6 (microsecond now))"

section \<open>The tools of \<open>backend/tools/auto_gitops_tools.py\<close>\<close>

text \<open>
  \<open>SHARED_MEMORY_PATH\<close> and \<open>REPORTS_DIR\<close> are read from the environment when the module
  is loaded, with the defaults below; the functions take them as their first argument.
  A tool that touches the file system takes the state and returns its result with the new
  state, or the exception it raises.
\<close>

definition default_shared_memory_path :: string where
  "default_shared_memory_path = ''memory/shared_memory.json''"

definition default_reports_dir :: string where
  "default_reports_dir = ''data/reports''"

subsection \<open>The shared memory store\<close>

definition ensure_memory_file :: "string \<Rightarrow> filesystem \<Rightarrow> error + filesystem" where
  "ensure_memory_file SHARED_MEMORY_PATH fs =
     (case makedirs fs (dirname SHARED_MEMORY_PATH) of
        Inl e \<Rightarrow> Inl e
      | Inr fs1 \<Rightarrow>
         if \<not> path_exists fs1 SHARED_MEMORY_PATH
         then write_file fs1 SHARED_MEMORY_PATH (json_dumps (JObj []))
         else Inr fs1)"

definition dict_get :: "(string \<times> json) list \<Rightarrow> string \<Rightarrow> json" where
  \<comment> \<open>\<open>data.get(key)\<close>\<close>
  "dict_get kvs k = (case map_of kvs k of Some v \<Rightarrow> v | None \<Rightarrow> JNull)"

definition read_shared_memory ::
  "string \<Rightarrow> string option \<Rightarrow> filesystem \<Rightarrow> error + string \<times> filesystem" where
  "read_shared_memory SHARED_MEMORY_PATH key fs =
     (case ensure_memory_file SHARED_MEMORY_PATH fs of
        Inl e \<Rightarrow> Inl e
      | Inr fs1 \<Rightarrow>
         (case read_file fs1 SHARED_MEMORY_PATH of
            Inl e \<Rightarrow> Inl e
          | Inr text \<Rightarrow>
             (case json_loads text of
                None \<Rightarrow> Inl JSONDecodeError
              | Some data \<Rightarrow>
                 (case key of
                    None \<Rightarrow> Inr (json_dumps data, fs1)
                  | Some k \<Rightarrow>
                     (case data of
                        JObj kvs \<Rightarrow> Inr (json_dumps (JObj [(k, dict_get kvs k)]), fs1)
                      | _ \<Rightarrow> Inl AttributeError)))))"

definition write_shared_memory ::
  "string \<Rightarrow> string \<Rightarrow> json \<Rightarrow> filesystem \<Rightarrow> error + string \<times> filesystem" where
  "write_shared_memory SHARED_MEMORY_PATH key val fs =
     (case ensure_memory_file SHARED_MEMORY_PATH fs of
        Inl e \<Rightarrow> Inl e
      | Inr fs1 \<Rightarrow>
         (case read_file fs1 SHARED_MEMORY_PATH of
            Inl e \<Rightarrow> Inl e
          | Inr text \<Rightarrow>
             (case json_loads text of
                None \<Rightarrow> Inl JSONDecodeError
              | Some data \<Rightarrow>
                 (case data of
                    JObj kvs \<Rightarrow>
                      (case write_file fs1 SHARED_MEMORY_PATH
                              (json_dumps_indent 2 (JObj (dict_set kvs key val))) of
                         Inl e \<Rightarrow> Inl e
                       | Inr fs2 \<Rightarrow>
                          Inr (json_dumps (JObj [(''status'', JStr ''ok''), (''key'', JStr key),
                                                 (''value'', val)]), fs2))
                  | _ \<Rightarrow> Inl TypeError))))"

subsection \<open>\<open>initialize_shared_memory\<close> of \<open>backend/main.py\<close>\<close>

definition initialize_shared_memory :: "string \<Rightarrow> filesystem \<Rightarrow> error + filesystem" where
  \<comment> \<open>the \<open>try\<close> covers the reading and the parsing, not \<open>ensure_memory_file\<close>\<close>
  "initialize_shared_memory SHARED_MEMORY_PATH fs =
     (case ensure_memory_file SHARED_MEMORY_PATH fs of
        Inl e \<Rightarrow> Inl e
      | Inr fs1 \<Rightarrow>
         (case read_file fs1 SHARED_MEMORY_PATH of
            Inl e \<Rightarrow> write_file fs1 SHARED_MEMORY_PATH ''{}''
          | Inr text \<Rightarrow>
             if strip text = [] \<or> json_loads (strip text) = None
             then write_file fs1 SHARED_MEMORY_PATH ''{}''
             else Inr fs1))"

subsection \<open>The pipeline trigger\<close>

text \<open>
  \<open>trigger_pipeline\<close> reads the clock twice: \<open>now\<close> is the reading it prints in ISO form,
  \<open>epoch\<close> is the integer \<open>int(datetime.utcnow().timestamp())\<close> of the second reading. The
  argument \<open>pipeline_type\<close> is \<open>"mock"\<close> when the caller leaves it out.
\<close>

definition pipeline_id :: "string \<Rightarrow> string \<Rightarrow> int \<Rightarrow> string" where
  "pipeline_id repo_full_name branch epoch =
     ''mock-pipeline-'' @ replace (CHR ''/'') (CHR ''-'') repo_full_name @ ''-'' @ branch
       @ ''-'' @ str_int epoch"

definition trigger_payload :: "datetime \<Rightarrow> int \<Rightarrow> string \<Rightarrow> string \<Rightarrow> string \<Rightarrow> json" where
  "trigger_payload now epoch repo_full_name branch pipeline_type =
     JObj [(''status'', JStr ''triggered''),
           (''pipeline_id'', JStr (pipeline_id repo_full_name branch epoch)),
           (''repo'', JStr repo_full_name),
           (''branch'', JStr branch),
           (''type'', JStr pipeline_type),
           (''triggered_at'', JStr (isoformat now @ ''Z''))]"

definition trigger_pipeline :: "datetime \<Rightarrow> int \<Rightarrow> string \<Rightarrow> string \<Rightarrow> string \<Rightarrow> string" where
  "trigger_pipeline now epoch repo_full_name branch pipeline_type =
     json_dumps (trigger_payload now epoch repo_full_name branch pipeline_type)"

subsection \<open>The report writer\<close>

definition safe_title :: "string \<Rightarrow> string" where
  \<comment> \<open>\<open>title.lower().replace(" ", "-")[:80]\<close>\<close>
  "safe_title title = take 80 (replace (CHR '' '') (CHR ''-'') (lower title))"

definition report_filename :: "string \<Rightarrow> string \<Rightarrow> string \<Rightarrow> string" where
  "report_filename repo title ts =
     replace (CHR ''/'') (CHR ''_'') repo @ ''_'' @ safe_title title @ ''_'' @ ts @ ''.md''"

definition report_text :: "string \<Rightarrow> string \<Rightarrow> string \<Rightarrow> string" where
  \<comment> \<open>what the three \<open>f.write\<close> calls write\<close>
  "report_text title ts content_md =
     ''# '' @ title @ [CHR 0x0A, CHR 0x0A] @ ''_Generated: '' @ ts @ ''_'' @ [CHR 0x0A, CHR 0x0A]
       @ content_md"

definition create_report_file ::
  "string \<Rightarrow> datetime \<Rightarrow> string \<Rightarrow> string \<Rightarrow> string \<Rightarrow> filesystem \<Rightarrow> error + string \<times> filesystem" where
  "create_report_file REPORTS_DIR now repo title content_md fs =
     (case makedirs fs REPORTS_DIR of
        Inl e \<Rightarrow> Inl e
      | Inr fs1 \<Rightarrow>
         (let ts = strftime_compact now;
              path = path_join REPORTS_DIR (report_filename repo title ts)
          in case write_file fs1 path (report_text title ts content_md) of
               Inl e \<Rightarrow> Inl e
             | Inr fs2 \<Rightarrow>
                Inr (json_dumps (JObj [(''status'', JStr ''written''), (''path'', JStr path)]), fs2)))"

subsection \<open>A sequence of writes, and example states\<close>

fun write_all :: "string \<Rightarrow> (string \<times> json) list \<Rightarrow> filesystem \<Rightarrow> error + filesystem" where
  \<comment> \<open>a caller writing pairs one after the other: \<open>for k, v in ws: write_shared_memory(k, v)\<close>\<close>
  "write_all SHARED_MEMORY_PATH [] fs = Inr fs"
| "write_all SHARED_MEMORY_PATH ((k, v) # ws) fs =
     (case write_shared_memory SHARED_MEMORY_PATH k v fs of
        Inl e \<Rightarrow> Inl e
      | Inr (res, fs') \<Rightarrow> write_all SHARED_MEMORY_PATH ws fs')"

definition empty_disk :: filesystem where
  \<comment> \<open>nothing but the working directory \<open>/app\<close>\<close>
  "empty_disk = \<lparr>nodes = Map.empty([''app''] \<mapsto> Dir), cwd = [''app'']\<rparr>"

definition store_holding :: "string \<Rightarrow> filesystem" where
  \<comment> \<open>the default store file exists and holds the given text\<close>
  "store_holding text =
     \<lparr>nodes = Map.empty([''app''] \<mapsto> Dir, [''app'', ''memory''] \<mapsto> Dir,
                [''app'', ''memory'', ''shared_memory.json''] \<mapsto> File text),
      cwd = [''app'']\<rparr>"

definition apply_writes :: "(string \<times> json) list \<Rightarrow> (string \<times> json) list \<Rightarrow> (string \<times> json) list" where
  "apply_writes kvs ws = foldl (\<lambda>d (k, v). dict_set d k v) kvs ws"

definition memory_is_a_file :: filesystem where
  "memory_is_a_file =
     \<lparr>nodes = Map.empty([''app''] \<mapsto> Dir, [''app'', ''memory''] \<mapsto> File ''notes''), cwd = [''app'']\<rparr>"


definition early :: datetime where
  \<comment> \<open>two readings of the clock within one second\<close>
  "early = \<lparr>year = 2025, month = 1, day = 2, hour = 3, minute = 4, second = 5, microsecond = 100000\<rparr>"


definition isdir :: "filesystem \<Rightarrow> string \<Rightarrow> bool" where
  \<comment> \<open>\<open>os.path.isdir(p)\<close>\<close>
  "isdir fs p = (p \<noteq> [] \<and> (case walk fs (start fs p) (components p) of Inl e \<Rightarrow> False | Inr l \<Rightarrow> True))"

definition reports_with_subdir :: filesystem where
  \<comment> \<open>the reports directory exists and has a subdirectory \<open>o_r_x\<close>\<close>
  "reports_with_subdir =
     \<lparr>nodes = Map.empty([''app''] \<mapsto> Dir, [''app'', ''data''] \<mapsto> Dir,
                [''app'', ''data'', ''reports''] \<mapsto> Dir,
                [''app'', ''data'', ''reports'', ''o_r_x''] \<mapsto> Dir),
      cwd = [''app'']\<rparr>"



section \<open>Properties\<close>

subsection \<open>What \<open>run\<close> returns\<close>

lemma in_many1: "r \<in> set (many1 ic c s) \<longleftrightarrow> (\<exists>pre. pre \<noteq> [] \<and> s = pre @ r \<and> (\<forall>x \<in> set pre. cc_match ic c x))"
proof (induction s)
  case Nil
  then show ?case by simp
next
  case (Cons a s)
  show ?case
  proof (cases "cc_match ic c a")
    case False
    then show ?thesis by (auto simp: Cons_eq_append_conv)
  next
    case True
    show ?thesis
    proof
      assume "r \<in> set (many1 ic c (a # s))"
      with True have "r \<in> set (many1 ic c s) \<or> r = s" by auto
      then show "\<exists>pre. pre \<noteq> [] \<and> a # s = pre @ r \<and> (\<forall>x \<in> set pre. cc_match ic c x)"
      proof
        assume "r \<in> set (many1 ic c s)"
        then obtain pre where "pre \<noteq> []" "s = pre @ r" "\<forall>x \<in> set pre. cc_match ic c x"
          using Cons.IH by auto
        then show ?thesis using True by (intro exI[of _ "a # pre"]) auto
      next
        assume "r = s"
        then show ?thesis using True by (intro exI[of _ "[a]"]) auto
      qed
    next
      assume "\<exists>pre. pre \<noteq> [] \<and> a # s = pre @ r \<and> (\<forall>x \<in> set pre. cc_match ic c x)"
      then obtain pre where p: "pre \<noteq> []" "a # s = pre @ r" "\<forall>x \<in> set pre. cc_match ic c x"
        by auto
      then obtain pre' where pre': "pre = a # pre'" "s = pre' @ r"
        by (cases pre) auto
      show "r \<in> set (many1 ic c (a # s))"
      proof (cases "pre' = []")
        case True
        then show ?thesis using pre' \<open>cc_match ic c a\<close> by simp
      next
        case False
        then have "r \<in> set (many1 ic c s)" using Cons.IH pre' p by auto
        then show ?thesis using \<open>cc_match ic c a\<close> by simp
      qed
    qed
  qed
qed

lemma in_lit: "r \<in> set (run True (lit w) s) \<longleftrightarrow> (\<exists>pre. s = pre @ r \<and> lower pre = lower w)"
proof (induction w arbitrary: s)
  case Nil
  then show ?case by (auto simp: lower_def)
next
  case (Cons c w)
  show ?case
  proof (cases s)
    case Nil
    then show ?thesis by (auto simp: lower_def)
  next
    case (Cons x xs)
    then show ?thesis using Cons.IH[of xs]
      by (auto simp: lower_def Cons_eq_append_conv)
  qed
qed

lemma run_alts_Cons: "set (run ic (alts (p # ps)) s) = set (run ic p s) \<union> set (run ic (alts ps) s)"
  by (cases ps) auto

lemma in_alts_lit: "r \<in> set (run True (alts (map lit ws)) s) \<longleftrightarrow> (\<exists>pre. s = pre @ r \<and> lower pre \<in> lower ` set ws)"
proof (induction ws)
  case Nil then show ?case by simp
next
  case (Cons w ws)
  have "r \<in> set (run True (alts (map lit (w # ws))) s) \<longleftrightarrow>
        r \<in> set (run True (lit w) s) \<or> r \<in> set (run True (alts (map lit ws)) s)"
    using run_alts_Cons[of True "lit w" "map lit ws" s] by simp
  then show ?case using Cons.IH in_lit[of r w s] by auto
qed

lemma in_One: "r \<in> set (run ic (One c) s) \<longleftrightarrow> (\<exists>x. s = x # r \<and> cc_match ic c x)"
  by (cases s) auto

lemma in_Seq: "r \<in> set (run ic (Seq a b) s) \<longleftrightarrow> (\<exists>m \<in> set (run ic a s). r \<in> set (run ic b m))"
  by auto


lemma lower_char_cases: "lower_char x = x \<or> lower_char x \<in> set lower_chars"
  unfolding lower_char_def
  by (auto split: option.splits dest!: map_of_SomeD set_zip_rightD)

lemma lower_char_fixed:
  assumes "c \<notin> set lower_chars" "c \<notin> set upper_chars"
  shows "lower_char x = lower_char c \<longleftrightarrow> x = c"
proof -
  have "map_of (zip upper_chars lower_chars) c = None"
    using assms(2) by (auto simp: map_of_eq_None_iff dest: set_zip_leftD)
  then have c: "lower_char c = c" by (simp add: lower_char_def)
  show ?thesis using lower_char_cases[of x] assms(1) c by auto
qed

lemma lower_char_lparen [simp]: "lower_char x = lower_char (CHR ''('') \<longleftrightarrow> x = CHR ''(''"
  by (rule lower_char_fixed) (simp_all add: lower_chars_def upper_chars_def)

lemma lower_char_rparen [simp]: "lower_char x = lower_char (CHR '')'') \<longleftrightarrow> x = CHR '')''"
  by (rule lower_char_fixed) (simp_all add: lower_chars_def upper_chars_def)

lemma lower_char_colon [simp]: "lower_char x = lower_char (CHR '':'') \<longleftrightarrow> x = CHR '':''"
  by (rule lower_char_fixed) (simp_all add: lower_chars_def upper_chars_def)

lemma in_scope: "r \<in> set (run True scope_rx s) \<longleftrightarrow> (\<exists>sc. scope_text sc \<and> s = sc @ r)"
proof
  assume "r \<in> set (run True scope_rx s)"
  then obtain m m2 where m: "m \<in> set (run True (One (CChar (CHR ''(''))) s)"
    and m2: "m2 \<in> set (many1 True CDot m)"
    and r: "r \<in> set (run True (One (CChar (CHR '')''))) m2)"
    unfolding scope_rx_def in_Seq by auto
  from m have s: "s = CHR ''('' # m" by (simp add: in_One)
  from m2 obtain b where b: "b \<noteq> []" "m = b @ m2" "\<forall>x \<in> set b. x \<noteq> CHR 0x0A"
    unfolding in_many1 by auto
  from r have "m2 = CHR '')'' # r" by (simp add: in_One)
  with s b have "scope_text (CHR ''('' # b @ '')'')" "s = (CHR ''('' # b @ '')'') @ r"
    by (auto simp: scope_text_def)
  then show "\<exists>sc. scope_text sc \<and> s = sc @ r" by blast
next
  assume "\<exists>sc. scope_text sc \<and> s = sc @ r"
  then obtain b where b: "b \<noteq> []" "CHR 0x0A \<notin> set b" "s = (CHR ''('' # b @ '')'') @ r"
    by (auto simp: scope_text_def)
  have 1: "b @ CHR '')'' # r \<in> set (run True (One (CChar (CHR ''(''))) s)"
    using b(3) by (simp add: in_One)
  have 2: "CHR '')'' # r \<in> set (many1 True CDot (b @ CHR '')'' # r))"
    unfolding in_many1 using b(1,2) by (intro exI[of _ b]) auto
  have 3: "r \<in> set (run True (One (CChar (CHR '')''))) (CHR '')'' # r))"
    by (simp add: in_One)
  show "r \<in> set (run True scope_rx s)"
    unfolding scope_rx_def in_Seq run.simps(3) using 1 2 3 by blast
qed

lemma map_lower_commit_types: "map lower commit_types = commit_types"
  by code_simp

lemma lower_commit_types: "lower ` set commit_types = set commit_types"
  using map_lower_commit_types by (simp flip: set_map)

lemma in_tail: "r \<in> set (run True (Seq (One (CChar (CHR '':''))) (Seq (One CSpace) (Many1 CDot))) s)
   \<longleftrightarrow> (\<exists>w pre. s = CHR '':'' # w # pre @ r \<and> isspace w \<and> pre \<noteq> [] \<and> CHR 0x0A \<notin> set pre)"
proof
  assume "r \<in> set (run True (Seq (One (CChar (CHR '':''))) (Seq (One CSpace) (Many1 CDot))) s)"
  then obtain m m2 where m: "m \<in> set (run True (One (CChar (CHR '':''))) s)"
    and m2: "m2 \<in> set (run True (One CSpace) m)"
    and r: "r \<in> set (many1 True CDot m2)"
    unfolding in_Seq by auto
  from m have s: "s = CHR '':'' # m" by (simp add: in_One)
  from m2 obtain w where w: "m = w # m2" "isspace w" by (auto simp: in_One)
  from r obtain pre where "pre \<noteq> []" "m2 = pre @ r" "\<forall>x \<in> set pre. x \<noteq> CHR 0x0A"
    unfolding in_many1 by auto
  with s w show "\<exists>w pre. s = CHR '':'' # w # pre @ r \<and> isspace w \<and> pre \<noteq> [] \<and> CHR 0x0A \<notin> set pre"
    by auto
next
  assume "\<exists>w pre. s = CHR '':'' # w # pre @ r \<and> isspace w \<and> pre \<noteq> [] \<and> CHR 0x0A \<notin> set pre"
  then obtain w pre where p: "s = CHR '':'' # w # pre @ r" "isspace w" "pre \<noteq> []" "CHR 0x0A \<notin> set pre"
    by auto
  have 1: "w # pre @ r \<in> set (run True (One (CChar (CHR '':''))) s)"
    using p(1) by (simp add: in_One)
  have 2: "pre @ r \<in> set (run True (One CSpace) (w # pre @ r))"
    using p(2) by (simp add: in_One)
  have 3: "r \<in> set (many1 True CDot (pre @ r))"
    unfolding in_many1 using p(3,4) by (intro exI[of _ pre]) auto
  show "r \<in> set (run True (Seq (One (CChar (CHR '':''))) (Seq (One CSpace) (Many1 CDot))) s)"
    unfolding in_Seq run.simps(3) using 1 2 3 by blast
qed

lemma in_Opt: "r \<in> set (run ic (Opt a) s) \<longleftrightarrow> r \<in> set (run ic a s) \<or> r = s"
  by auto

lemma re_match_pattern: "re_match True pattern s \<longleftrightarrow> conventional_prefix s"
proof
  assume "re_match True pattern s"
  then obtain r where "r \<in> set (run True pattern s)"
    unfolding re_match_def by (cases "run True pattern s") auto
  then obtain m1 m2 where m1: "m1 \<in> set (run True (alts (map lit commit_types)) s)"
    and m2: "m2 \<in> set (run True (Opt scope_rx) m1)"
    and r: "r \<in> set (run True (Seq (One (CChar (CHR '':''))) (Seq (One CSpace) (Many1 CDot))) m2)"
    unfolding pattern_def in_Seq by blast
  from m1 obtain ty where ty: "s = ty @ m1" "lower ty \<in> set commit_types"
    unfolding in_alts_lit lower_commit_types by auto
  from m2 obtain sc where sc: "m1 = sc @ m2" "sc = [] \<or> scope_text sc"
    unfolding in_Opt in_scope by auto
  from r obtain w pre where p: "m2 = CHR '':'' # w # pre @ r" "isspace w" "pre \<noteq> []" "CHR 0x0A \<notin> set pre"
    unfolding in_tail by auto
  from p(3) obtain d pre' where d: "pre = d # pre'" by (cases pre) auto
  have "s = ty @ sc @ [CHR '':'', w, d] @ (pre' @ r)" using ty sc p d by simp
  moreover have "d \<noteq> CHR 0x0A" using p(4) d by auto
  ultimately show "conventional_prefix s"
    unfolding conventional_prefix_def using ty(2) sc(2) p(2) by blast
next
  assume "conventional_prefix s"
  then obtain ty sc w d rest where c: "s = ty @ sc @ [CHR '':'', w, d] @ rest" "lower ty \<in> set commit_types"
    "sc = [] \<or> scope_text sc" "isspace w" "d \<noteq> CHR 0x0A"
    unfolding conventional_prefix_def by blast
  have 1: "sc @ [CHR '':'', w, d] @ rest \<in> set (run True (alts (map lit commit_types)) s)"
    unfolding in_alts_lit lower_commit_types using c(1,2) by blast
  have 2: "[CHR '':'', w, d] @ rest \<in> set (run True (Opt scope_rx) (sc @ [CHR '':'', w, d] @ rest))"
    unfolding in_Opt in_scope using c(3) by auto
  have 3: "rest \<in> set (run True (Seq (One (CChar (CHR '':''))) (Seq (One CSpace) (Many1 CDot))) ([CHR '':'', w, d] @ rest))"
    unfolding in_tail using c(4,5) by (intro exI[of _ w] exI[of _ "[d]"]) auto
  have "rest \<in> set (run True pattern s)"
    unfolding pattern_def using 1 2 3 in_Seq by blast
  then show "re_match True pattern s"
    unfolding re_match_def by auto
qed


lemma dumps_valid_true: \<open>json_dumps (JObj [(''valid'', JBool True)]) = ''{"valid": true}''\<close>
  by (simp add: json_dumps_def encode_basestring_ascii_def escape_char_def newline_indent_def item_separator_def)

lemma dumps_valid_false: \<open>json_dumps (JObj [(''valid'', JBool False), (''reason'', JStr reason_text)]) =
   ''{"valid": false, "reason": "Commit message must follow Conventional Commits, e.g. '' @ [CHR 0x27]
     @ ''feat(module): short description'' @ [CHR 0x27] @ ''"}''\<close>
  by (simp add: json_dumps_def encode_basestring_ascii_def escape_char_def newline_indent_def item_separator_def reason_text_def)

text \<open>
  Claim C4, as the code has it. For every message, \<open>validate_commit_message\<close> answers
  \<open>{"valid": true}\<close> exactly when the message, stripped of leading and trailing
  whitespace, begins with one of the eight types in any letter case, then optionally a
  scope (one or more characters other than a newline, in parentheses), then a colon, one
  whitespace character and one character other than a newline; whatever follows is not
  looked at. Otherwise the answer is \<open>valid\<close> false with the fixed, non-empty reason. The
  function is total: it has no error result.
\<close>

theorem validate_commit_message_grammar:
  "(validate_commit_message m = json_dumps (JObj [(''valid'', JBool True)]) \<longleftrightarrow> conventional_prefix (strip m))
   \<and> (\<not> conventional_prefix (strip m) \<longrightarrow>
        validate_commit_message m = json_dumps (JObj [(''valid'', JBool False), (''reason'', JStr reason_text)])
        \<and> reason_text \<noteq> [])"
proof -
  have ne: "json_dumps (JObj [(''valid'', JBool False), (''reason'', JStr reason_text)])
      \<noteq> json_dumps (JObj [(''valid'', JBool True)])"
    unfolding dumps_valid_true dumps_valid_false by simp
  have r: "reason_text \<noteq> []" by (simp add: reason_text_def)
  show ?thesis
    using ne r by (simp add: validate_commit_message_def re_match_pattern)
qed

theorem validate_commit_message_grammar_witness:
  "conventional_prefix (strip ''feat(core): add x'') \<and> \<not> conventional_prefix (strip ''added stuff'')
   \<and> validate_commit_message ''added stuff'' = json_dumps (JObj [(''valid'', JBool False), (''reason'', JStr reason_text)])"
proof -
  have 1: "validate_commit_message ''feat(core): add x'' = json_dumps (JObj [(''valid'', JBool True)])"
    by code_simp
  have 2: "validate_commit_message ''added stuff'' \<noteq> json_dumps (JObj [(''valid'', JBool True)])"
    by code_simp
  show ?thesis
    using validate_commit_message_grammar[of "''feat(core): add x''"]
      validate_commit_message_grammar[of "''added stuff''"] 1 2 by blast
qed

text \<open>
  Claim C4 as the specification words it asks for a colon and a space. A tab after the
  colon is accepted by the code, and is not of the specification's form.
\<close>

theorem validate_commit_message_counterexample:
  "validate_commit_message (''feat:'' @ [CHR 0x09] @ ''x'') = json_dumps (JObj [(''valid'', JBool True)])
   \<and> \<not> spec_conventional_form (strip (''feat:'' @ [CHR 0x09] @ ''x''))"
proof
  show "validate_commit_message (''feat:'' @ [CHR 0x09] @ ''x'') = json_dumps (JObj [(''valid'', JBool True)])"
    by code_simp
  have s: "strip (''feat:'' @ [CHR 0x09] @ ''x'') = ''feat:'' @ [CHR 0x09] @ ''x''"
    by (simp add: strip_def isspace_def)
  show "\<not> spec_conventional_form (strip (''feat:'' @ [CHR 0x09] @ ''x''))"
  proof
    assume "spec_conventional_form (strip (''feat:'' @ [CHR 0x09] @ ''x''))"
    then obtain ty sc d where eq: "''feat:'' @ [CHR 0x09] @ ''x'' = ty @ sc @ '': '' @ d"
      unfolding s spec_conventional_form_def by blast
    have "CHR '' '' \<in> set (''feat:'' @ [CHR 0x09] @ ''x'')"
      unfolding eq by simp
    then show False by simp
  qed
qed

subsection \<open>\<open>json.loads\<close> reads back what \<open>json.dumps\<close> writes\<close>

lemma digit_val_digit_char: "d < 10 \<Longrightarrow> digit_val (digit_char d) = Some d"
proof -
  assume "d < 10"
  then have "d \<in> {0, 1, 2, 3, 4, 5, 6, 7, 8, 9}" by auto
  then show ?thesis by (elim insertE emptyE; simp add: digit_val_def digit_char_def)
qed

lemma is_digit_digit_char: "d < 10 \<Longrightarrow> is_digit (digit_char d)"
  by (simp add: is_digit_def digit_val_digit_char)

lemma digit_char_zero: "d < 10 \<Longrightarrow> digit_char d = CHR ''0'' \<longleftrightarrow> d = 0"
proof -
  assume "d < 10"
  then have "d \<in> {0, 1, 2, 3, 4, 5, 6, 7, 8, 9}" by auto
  then show ?thesis by (elim insertE emptyE; simp add: digit_char_def)
qed

lemma str_nat_digits: "c \<in> set (str_nat n) \<Longrightarrow> is_digit c"
proof (induction n arbitrary: c rule: str_nat.induct)
  case (1 n)
  show ?case
  proof (cases "n < 10")
    case True
    with "1.prems" show ?thesis by (simp add: str_nat.simps[of n] is_digit_digit_char)
  next
    case False
    with "1.prems" "1.IH" show ?thesis
      by (auto simp: str_nat.simps[of n] is_digit_digit_char)
  qed
qed

lemma str_nat_nonempty: "str_nat n \<noteq> []"
  by (subst str_nat.simps) simp

lemma nat_of_digits_snoc:
  "nat_of_digits (ds @ [c]) = 10 * nat_of_digits ds + (case digit_val c of Some d \<Rightarrow> d | None \<Rightarrow> 0)"
  by (simp add: nat_of_digits_def)

lemma nat_of_digits_str_nat: "nat_of_digits (str_nat n) = n"
proof (induction n rule: str_nat.induct)
  case (1 n)
  show ?case
  proof (cases "n < 10")
    case True
    then show ?thesis
      by (simp add: str_nat.simps[of n] nat_of_digits_def digit_val_digit_char)
  next
    case False
    then have "nat_of_digits (str_nat n) = 10 * (n div 10) + n mod 10"
      using "1.IH" by (simp add: str_nat.simps[of n] nat_of_digits_snoc digit_val_digit_char)
    then show ?thesis by simp
  qed
qed

lemma str_nat_hd: "\<exists>d ds. str_nat n = d # ds \<and> is_digit d \<and> (d = CHR ''0'' \<longrightarrow> n = 0 \<and> ds = [])"
proof (induction n rule: str_nat.induct)
  case (1 n)
  show ?case
  proof (cases "n < 10")
    case True
    then show ?thesis
      by (simp add: str_nat.simps[of n] is_digit_digit_char digit_char_zero)
  next
    case False
    then obtain d ds where d: "str_nat (n div 10) = d # ds" "is_digit d" "d = CHR ''0'' \<longrightarrow> n div 10 = 0 \<and> ds = []"
      using "1.IH" by blast
    have "n div 10 \<noteq> 0" using False by simp
    with d have "d \<noteq> CHR ''0''" by blast
    then show ?thesis using False d by (simp add: str_nat.simps[of n])
  qed
qed

lemma takeWhile_digits: "\<forall>c \<in> set ds. is_digit c \<Longrightarrow> digits_end r \<Longrightarrow> takeWhile is_digit (ds @ r) = ds"
  by (cases r) (auto simp: digits_end_def takeWhile_append2 intro: takeWhile_eq_all_conv[THEN iffD2])

lemma dropWhile_digits: "\<forall>c \<in> set ds. is_digit c \<Longrightarrow> digits_end r \<Longrightarrow> dropWhile is_digit (ds @ r) = r"
  by (cases r) (auto simp: digits_end_def dropWhile_append2)

lemma scan_digits_str_nat:
  assumes "digits_end r"
  shows "scan_digits (str_nat n @ r) = Some (n, r)"
proof -
  obtain d ds where d: "str_nat n = d # ds" "is_digit d" "d = CHR ''0'' \<longrightarrow> n = 0 \<and> ds = []"
    using str_nat_hd by blast
  have all: "\<forall>c \<in> set ds. is_digit c" using str_nat_digits[of _ n] d(1) by simp
  show ?thesis
  proof (cases "d = CHR ''0''")
    case True
    then show ?thesis using d by (simp add: scan_digits_def)
  next
    case False
    have "nat_of_digits (d # ds) = n" using nat_of_digits_str_nat[of n] d(1) by simp
    then show ?thesis
      using False d(1,2) takeWhile_digits[OF all assms] dropWhile_digits[OF all assms]
      by (simp add: scan_digits_def)
  qed
qed

lemma number_end_digits_end: "number_end r \<Longrightarrow> digits_end r"
  by (auto simp: number_end_def digits_end_def split: list.splits)

lemma number_end_float_tail: "number_end r \<Longrightarrow> \<not> float_tail r"
  by (auto simp: number_end_def float_tail_def split: list.splits)

lemma str_nat_not_minus: "str_nat n = d # ds \<Longrightarrow> d \<noteq> CHR ''-''"
  using str_nat_digits[of d n] by (auto simp: is_digit_def digit_val_def)

lemma scan_number_str_int:
  assumes "number_end r"
  shows "scan_number (str_int i @ r) = Some (JInt i, r)"
proof (cases "i < 0")
  case True
  then show ?thesis
    using scan_digits_str_nat[OF number_end_digits_end[OF assms], of "nat (- i)"]
      number_end_float_tail[OF assms]
    by (simp add: scan_number_def str_int_def)
next
  case False
  obtain d ds where d: "str_nat (nat i) = d # ds" using str_nat_nonempty[of "nat i"] by (cases "str_nat (nat i)") auto
  have "d \<noteq> CHR ''-''" using str_nat_not_minus[OF d] .
  then show ?thesis
    using False d scan_digits_str_nat[OF number_end_digits_end[OF assms], of "nat i"]
      number_end_float_tail[OF assms]
    by (simp add: scan_number_def str_int_def)
qed

lemma hex_val_hex_char: "d < 16 \<Longrightarrow> hex_val (hex_char d) = Some d"
proof -
  assume "d < 16"
  then have "d \<in> {0, 1, 2, 3, 4, 5, 6, 7, 8, 9, 10, 11, 12, 13, 14, 15}" by simp arith
  then show ?thesis by (elim insertE emptyE; simp add: hex_val_def hex_char_def)
qed

lemma decode_uXXXX_hex:
  "decode_uXXXX [CHR ''0'', CHR ''0'', hex_char (of_char c div 16), hex_char (of_char c mod 16)] = Some c"
proof -
  have lt: "(of_char c :: nat) < 256" by simp
  have a: "hex_val (hex_char (of_char c div 16)) = Some (of_char c div 16)"
    using lt by (intro hex_val_hex_char) (simp add: div_less_iff_less_mult)
  have b: "hex_val (hex_char (of_char c mod 16)) = Some (of_char c mod 16)"
    by (intro hex_val_hex_char) simp
  have z: "hex_val (CHR ''0'') = Some 0" by (simp add: hex_val_def)
  have "char_of (16 * ((of_char c :: nat) div 16) + of_char c mod 16) = c"
    by simp
  then show ?thesis by (simp add: decode_uXXXX_def a b z)
qed

lemma scanstring_escape_char: "scanstring (escape_char c @ r) = scan_cons c (scanstring r)"
proof -
  consider (q) "c = CHR 0x22" | (b) "c = CHR 0x5C" | (n) "c = CHR 0x0A" | (r) "c = CHR 0x0D"
    | (t) "c = CHR 0x09" | (bs) "c = CHR 0x08" | (f) "c = CHR 0x0C"
    | (u) "c \<notin> {CHR 0x22, CHR 0x5C, CHR 0x0A, CHR 0x0D, CHR 0x09, CHR 0x08, CHR 0x0C}"
          "(of_char c :: nat) < 32 \<or> 126 < (of_char c :: nat)"
    | (p) "c \<notin> {CHR 0x22, CHR 0x5C, CHR 0x0A, CHR 0x0D, CHR 0x09, CHR 0x08, CHR 0x0C}"
          "\<not> ((of_char c :: nat) < 32 \<or> 126 < (of_char c :: nat))"
    by blast
  then show ?thesis
  proof cases
    case q then show ?thesis by (simp add: escape_char_def unescape_def scan_cons_def)
  next
    case b then show ?thesis by (simp add: escape_char_def unescape_def scan_cons_def)
  next
    case n then show ?thesis by (simp add: escape_char_def unescape_def scan_cons_def)
  next
    case r then show ?thesis by (simp add: escape_char_def unescape_def scan_cons_def)
  next
    case t then show ?thesis by (simp add: escape_char_def unescape_def scan_cons_def)
  next
    case bs then show ?thesis by (simp add: escape_char_def unescape_def scan_cons_def)
  next
    case f then show ?thesis by (simp add: escape_char_def unescape_def scan_cons_def)
  next
    case u
    then have "escape_char c = [CHR 0x5C, CHR ''u'', CHR ''0'', CHR ''0'',
              hex_char (of_char c div 16), hex_char (of_char c mod 16)]"
      by (simp add: escape_char_def)
    then show ?thesis using decode_uXXXX_hex[of c] by (simp add: scan_cons_def)
  next
    case p
    then have "escape_char c = [c]" by (simp add: escape_char_def)
    then show ?thesis using p by (simp add: scan_cons_def)
  qed
qed

lemma scanstring_escaped: "scanstring (concat (map escape_char s) @ CHR 0x22 # r) = Some (s, r)"
  by (induction s) (simp_all add: scanstring_escape_char scan_cons_def)

lemma parse_value_string:
  "parse_value (encode_basestring_ascii s @ r) = Some (JStr s, r)"
  using scanstring_escaped[of s r] by (simp add: encode_basestring_ascii_def)

lemma value_end_number_end: "value_end r \<Longrightarrow> number_end r"
  by (auto simp: value_end_def number_end_def is_ws_def is_digit_def digit_val_def split: list.splits)

lemma skip_ws_append: "\<forall>c \<in> set w. is_ws c \<Longrightarrow> skip_ws (w @ s) = skip_ws s"
  by (simp add: skip_ws_def dropWhile_append)

lemma skip_ws_starts: "starts_value s \<Longrightarrow> skip_ws (s @ r) = s @ r"
  by (auto simp: skip_ws_def starts_value_def)

lemma starts_value_append: "starts_value s \<Longrightarrow> starts_value (s @ r)"
  by (auto simp: starts_value_def)

lemma ws_newline_indent: "\<forall>c \<in> set (newline_indent ind lvl). is_ws c"
  by (auto simp: newline_indent_def is_ws_def split: option.splits)

lemma item_separator_eq: "\<exists>w. item_separator ind lvl = CHR '','' # w \<and> (\<forall>c \<in> set w. is_ws c)"
  by (cases ind) (auto simp: item_separator_def newline_indent_def is_ws_def)

lemma is_digit_not_special:
  "is_digit c \<Longrightarrow> \<not> is_ws c \<and> c \<noteq> CHR '']'' \<and> c \<noteq> CHR ''}'' \<and> c \<noteq> CHR 0x22 \<and> c \<noteq> CHR ''{''
     \<and> c \<noteq> CHR ''['' \<and> c \<noteq> CHR ''n'' \<and> c \<noteq> CHR ''t'' \<and> c \<noteq> CHR ''f'' \<and> c \<noteq> CHR ''-''"
  by (auto simp: is_digit_def digit_val_def is_ws_def)

lemma str_int_hd: "\<exists>c cs. str_int i = c # cs \<and> (c = CHR ''-'' \<or> is_digit c)"
proof -
  obtain d ds where "str_nat (nat i) = d # ds" "is_digit d" using str_nat_hd by blast
  then show ?thesis by (auto simp: str_int_def)
qed

lemma starts_value_iterencode: "starts_value (iterencode ind lvl v)"
proof (cases v)
  case (JInt i)
  obtain c cs where "str_int i = c # cs" "c = CHR ''-'' \<or> is_digit c" using str_int_hd by blast
  then show ?thesis using JInt is_digit_not_special[of c]
    by (auto simp: starts_value_def is_ws_def)
qed (auto simp: starts_value_def is_ws_def encode_basestring_ascii_def)

lemma parse_value_int:
  assumes "value_end r"
  shows "parse_value (str_int i @ r) = Some (JInt i, r)"
proof -
  obtain c cs where c: "str_int i = c # cs" "c = CHR ''-'' \<or> is_digit c" using str_int_hd by blast
  have ne: "c \<noteq> CHR 0x22" "c \<noteq> CHR ''{''" "c \<noteq> CHR ''[''" "c \<noteq> CHR ''n''"
    "c \<noteq> CHR ''t''" "c \<noteq> CHR ''f''"
    using c(2) is_digit_not_special[of c] by blast+
  have "parse_value (c # cs @ r) = scan_number (c # cs @ r)"
    by (simp add: ne)
  then show ?thesis
    using scan_number_str_int[OF value_end_number_end[OF assms], of i] c(1) by simp
qed

lemma value_end_sep: "value_end (CHR '','' # s)"
  by (simp add: value_end_def)

lemma value_end_close:
  assumes "\<forall>c \<in> set w. is_ws c" "d = CHR '']'' \<or> d = CHR ''}''"
  shows "value_end (w @ d # r)"
  using assms by (cases w) (auto simp: value_end_def)

lemma skip_ws_close:
  assumes "\<forall>c \<in> set w. is_ws c" "d = CHR '']'' \<or> d = CHR ''}''"
  shows "skip_ws (w @ d # r) = d # r"
  using assms by (auto simp: skip_ws_append) (auto simp: skip_ws_def is_ws_def)

lemma skip_ws_comma: "skip_ws (CHR '','' # s) = CHR '','' # s"
  by (simp add: skip_ws_def is_ws_def)

lemma parse_items_join:
  assumes enc: "\<And>x r. x \<in> set xs \<Longrightarrow> value_end r \<Longrightarrow> parse_value (enc x @ r) = Some (x, r)"
    and st: "\<And>x. starts_value (enc x)"
    and w: "\<forall>c \<in> set w. is_ws c" and w0: "\<forall>c \<in> set w0. is_ws c"
    and ne: "xs \<noteq> []"
  shows "parse_items (join (CHR '','' # w) (map enc xs) @ w0 @ CHR '']'' # r) = Some (xs, r)"
  using ne enc
proof (induction xs rule: list_nonempty_induct)
  case (single x)
  have "parse_value (enc x @ w0 @ CHR '']'' # r) = Some (x, w0 @ CHR '']'' # r)"
    using single by (simp add: value_end_close[OF w0])
  then show ?case
    by (subst parse_items.simps) (simp add: skip_ws_close[OF w0])
next
  case (cons x xs)
  obtain y ys where xs: "xs = y # ys" using cons.hyps by (cases xs) auto
  define rest where "rest = join (CHR '','' # w) (map enc xs) @ w0 @ CHR '']'' # r"
  have j: "join (CHR '','' # w) (map enc (x # xs)) @ w0 @ CHR '']'' # r = enc x @ CHR '','' # w @ rest"
    by (simp add: xs rest_def)
  have pv: "parse_value (enc x @ CHR '','' # w @ rest) = Some (x, CHR '','' # w @ rest)"
    using cons.prems by (simp add: value_end_sep)
  have "starts_value rest"
    unfolding rest_def xs using st[of y] by (cases ys) (auto intro: starts_value_append)
  then have sk: "skip_ws (w @ rest) = rest"
    using skip_ws_starts[of rest "[]"] by (simp add: skip_ws_append[OF w])
  have ih: "parse_items rest = Some (xs, r)"
    unfolding rest_def using cons.IH cons.prems by simp
  show ?case
    unfolding j by (subst parse_items.simps) (simp add: pv skip_ws_comma sk ih)
qed

lemma dict_set_fresh: "k \<notin> fst ` set d \<Longrightarrow> dict_set d k v = d @ [(k, v)]"
  by (induction d) auto

lemma foldl_dict_set_distinct:
  "distinct (map fst (d @ ps)) \<Longrightarrow> foldl (\<lambda>d (k, v). dict_set d k v) d ps = d @ ps"
proof (induction ps arbitrary: d)
  case Nil
  then show ?case by simp
next
  case (Cons p ps)
  obtain k v where p: "p = (k, v)" by (cases p)
  have "k \<notin> fst ` set d" using Cons.prems p by auto
  then have "dict_set d k v = d @ [p]" using p by (simp add: dict_set_fresh)
  moreover have "distinct (map fst ((d @ [p]) @ ps))" using Cons.prems by simp
  ultimately show ?case using Cons.IH[of "d @ [p]"] p by simp
qed

lemma dict_of_pairs_distinct: "distinct (map fst ps) \<Longrightarrow> dict_of_pairs ps = ps"
  using foldl_dict_set_distinct[of "[]" ps] by (simp add: dict_of_pairs_def)

lemma starts_value_member: "starts_value (encode_member enc kv @ r)"
  by (simp add: encode_member_def encode_basestring_ascii_def starts_value_def is_ws_def)

lemma parse_member_head:
  assumes pv: "parse_value (enc v @ rest) = Some (v, rest)" and st: "starts_value (enc v)"
  shows "parse_members (encode_member enc (k, v) @ rest) =
     (case skip_ws rest of
        [] \<Rightarrow> None
      | d # r4 \<Rightarrow>
         if d = CHR ''}'' then Some ([(k, v)], r4)
         else if d = CHR '','' \<and> length r4 < length (encode_member enc (k, v) @ rest) then
           (case parse_members (skip_ws r4) of None \<Rightarrow> None
            | Some (ps, r5) \<Rightarrow> Some ((k, v) # ps, r5))
         else None)"
proof -
  define s where "s = encode_member enc (k, v) @ rest"
  have s: "s = CHR 0x22 # concat (map escape_char k) @ CHR 0x22 # CHR '':'' # CHR '' '' # enc v @ rest"
    by (simp add: s_def encode_member_def encode_basestring_ascii_def)
  have sc: "scanstring (concat (map escape_char k) @ CHR 0x22 # CHR '':'' # CHR '' '' # enc v @ rest)
      = Some (k, CHR '':'' # CHR '' '' # enc v @ rest)"
    by (rule scanstring_escaped)
  have sk1: "skip_ws (CHR '':'' # CHR '' '' # enc v @ rest) = CHR '':'' # CHR '' '' # enc v @ rest"
    by (simp add: skip_ws_def is_ws_def)
  have sk2: "skip_ws (CHR '' '' # enc v @ rest) = enc v @ rest"
    using skip_ws_starts[OF st, of rest] skip_ws_append[of "'' ''" "enc v @ rest"]
    by (simp add: is_ws_def)
  have "parse_members s =
     (case skip_ws rest of
        [] \<Rightarrow> None
      | d # r4 \<Rightarrow>
         if d = CHR ''}'' then Some ([(k, v)], r4)
         else if d = CHR '','' \<and> length r4 < length s then
           (case parse_members (skip_ws r4) of None \<Rightarrow> None
            | Some (ps, r5) \<Rightarrow> Some ((k, v) # ps, r5))
         else None)"
    unfolding s by (subst parse_members.simps) (simp add: sc sk1 sk2 pv)
  then show ?thesis unfolding s_def .
qed

lemma parse_members_join:
  assumes enc: "\<And>k v r. (k, v) \<in> set kvs \<Longrightarrow> value_end r \<Longrightarrow> parse_value (enc v @ r) = Some (v, r)"
    and st: "\<And>v. starts_value (enc v)"
    and w: "\<forall>c \<in> set w. is_ws c" and w0: "\<forall>c \<in> set w0. is_ws c"
    and ne: "kvs \<noteq> []"
  shows "parse_members (join (CHR '','' # w) (map (encode_member enc) kvs) @ w0 @ CHR ''}'' # r) = Some (kvs, r)"
  using ne enc
proof (induction kvs rule: list_nonempty_induct)
  case (single kv)
  obtain k v where kv: "kv = (k, v)" by (cases kv)
  have "parse_value (enc v @ w0 @ CHR ''}'' # r) = Some (v, w0 @ CHR ''}'' # r)"
    using single[of k v "w0 @ CHR ''}'' # r"] kv by (simp add: value_end_close[OF w0])
  from parse_member_head[of enc v "w0 @ CHR ''}'' # r" k, OF this st] show ?case
    by (simp add: kv skip_ws_close[OF w0])
next
  case (cons kv kvs)
  obtain k v where kv: "kv = (k, v)" by (cases kv)
  obtain y ys where xs: "kvs = y # ys" using cons.hyps by (cases kvs) auto
  define rest where "rest = join (CHR '','' # w) (map (encode_member enc) kvs) @ w0 @ CHR ''}'' # r"
  have j: "join (CHR '','' # w) (map (encode_member enc) (kv # kvs)) @ w0 @ CHR ''}'' # r
      = encode_member enc (k, v) @ CHR '','' # w @ rest"
    by (simp add: xs rest_def kv)
  have pv: "parse_value (enc v @ CHR '','' # w @ rest) = Some (v, CHR '','' # w @ rest)"
    using cons.prems[of k v "CHR '','' # w @ rest"] kv by (simp add: value_end_sep)
  have "starts_value rest"
    unfolding rest_def xs using starts_value_member[of enc y]
    by (cases ys) (auto intro: starts_value_append simp del: append_assoc simp: append_assoc[symmetric])
  then have sk: "skip_ws (w @ rest) = rest"
    using skip_ws_starts[of rest "[]"] by (simp add: skip_ws_append[OF w])
  have ih: "parse_members rest = Some (kvs, r)"
    unfolding rest_def
  proof (rule cons.IH)
    fix k' v' r'
    assume "(k', v') \<in> set kvs" "value_end r'"
    then show "parse_value (enc v' @ r') = Some (v', r')"
      using cons.prems[of k' v' r'] by simp
  qed
  show ?case
    unfolding j using parse_member_head[of enc v "CHR '','' # w @ rest" k, OF pv st]
    by (simp add: skip_ws_comma sk ih kv)
qed

lemma encode_member_eq:
  "(\<lambda>(k, v). encode_basestring_ascii k @ CHR '':'' # CHR '' '' # enc v) = encode_member enc"
  by (auto simp: encode_member_def fun_eq_iff)

lemma parse_value_iterencode:
  "wf_json v \<Longrightarrow> value_end r \<Longrightarrow> parse_value (iterencode ind lvl v @ r) = Some (v, r)"
proof (induction v arbitrary: lvl r)
  case JNull
  then show ?case by simp
next
  case (JBool b)
  then show ?case by (cases b) simp_all
next
  case (JInt i)
  then show ?case by (simp add: parse_value_int)
next
  case (JStr s)
  then show ?case by (simp add: parse_value_string)
next
  case (JArr xs)
  show ?case
  proof (cases "xs = []")
    case True
    then show ?thesis by (simp add: skip_ws_def is_ws_def)
  next
    case False
    define enc where "enc = iterencode ind (Suc lvl)"
    obtain w where w: "item_separator ind (Suc lvl) = CHR '','' # w" "\<forall>c \<in> set w. is_ws c"
      using item_separator_eq by blast
    define body where "body = join (CHR '','' # w) (map enc xs) @ newline_indent ind lvl @ CHR '']'' # r"
    have items: "parse_items body = Some (xs, r)"
      unfolding body_def
    proof (rule parse_items_join[OF _ _ w(2) ws_newline_indent False])
      fix x r' assume "x \<in> set xs" "value_end r'"
      then show "parse_value (enc x @ r') = Some (x, r')"
        using JArr.IH[of x r' "Suc lvl"] JArr.prems(1) by (simp add: enc_def)
    next
      fix x show "starts_value (enc x)" by (simp add: enc_def starts_value_iterencode)
    qed
    obtain y ys where xs: "xs = y # ys" using False by (cases xs) auto
    have "starts_value body"
      unfolding body_def xs using starts_value_iterencode[of ind "Suc lvl" y]
      by (cases ys) (auto intro: starts_value_append simp: enc_def)
    then obtain d r1 where d: "body = d # r1" "\<not> is_ws d" "d \<noteq> CHR '']''"
      by (auto simp: starts_value_def)
    have "skip_ws (newline_indent ind (Suc lvl) @ body) = skip_ws body"
      by (rule skip_ws_append[OF ws_newline_indent])
    then have sk: "skip_ws (newline_indent ind (Suc lvl) @ body) = d # r1"
      using d by (simp add: skip_ws_def)
    have enc_eq: "iterencode ind lvl (JArr xs) @ r = CHR ''['' # newline_indent ind (Suc lvl) @ body"
      using False by (simp add: body_def enc_def w(1))
    have "parse_value (CHR ''['' # newline_indent ind (Suc lvl) @ body) = Some (JArr xs, r)"
      using items[unfolded d(1)] d(3) by (simp add: sk)
    then show ?thesis by (simp only: enc_eq)
  qed
next
  case (JObj kvs)
  show ?case
  proof (cases "kvs = []")
    case True
    then show ?thesis by (simp add: skip_ws_def is_ws_def dict_of_pairs_def)
  next
    case False
    define enc where "enc = iterencode ind (Suc lvl)"
    obtain w where w: "item_separator ind (Suc lvl) = CHR '','' # w" "\<forall>c \<in> set w. is_ws c"
      using item_separator_eq by blast
    define body where "body = join (CHR '','' # w) (map (encode_member enc) kvs) @ newline_indent ind lvl @ CHR ''}'' # r"
    have members: "parse_members body = Some (kvs, r)"
      unfolding body_def
    proof (rule parse_members_join[OF _ _ w(2) ws_newline_indent False])
      fix k v r' assume kv: "(k, v) \<in> set kvs" "value_end r'"
      then have "wf_json v" using JObj.prems(1) by auto
      then show "parse_value (enc v @ r') = Some (v, r')"
        using JObj.IH[of "(k, v)" v r' "Suc lvl"] kv by (simp add: enc_def)
    next
      fix v show "starts_value (enc v)" by (simp add: enc_def starts_value_iterencode)
    qed
    obtain y ys where xs: "kvs = y # ys" using False by (cases kvs) auto
    have "starts_value body"
      unfolding body_def xs using starts_value_member[of enc y]
      by (cases ys) (auto intro: starts_value_append simp del: append_assoc simp: append_assoc[symmetric])
    then obtain d r1 where d: "body = d # r1" "\<not> is_ws d" "d \<noteq> CHR ''}''"
      by (auto simp: starts_value_def)
    have "skip_ws (newline_indent ind (Suc lvl) @ body) = skip_ws body"
      by (rule skip_ws_append[OF ws_newline_indent])
    then have sk: "skip_ws (newline_indent ind (Suc lvl) @ body) = d # r1"
      using d by (simp add: skip_ws_def)
    have enc_eq: "iterencode ind lvl (JObj kvs) @ r = CHR ''{'' # newline_indent ind (Suc lvl) @ body"
      using False by (simp add: body_def enc_def w(1) encode_member_eq)
    have dp: "dict_of_pairs kvs = kvs"
      using JObj.prems(1) by (simp add: dict_of_pairs_distinct)
    have "parse_value (CHR ''{'' # newline_indent ind (Suc lvl) @ body) = Some (JObj kvs, r)"
      using members[unfolded d(1)] d(3) by (simp add: sk dp)
    then show ?thesis by (simp only: enc_eq)
  qed
qed

lemma json_loads_iterencode: "wf_json v \<Longrightarrow> json_loads (iterencode ind lvl v) = Some v"
proof -
  assume wf: "wf_json v"
  have "skip_ws (iterencode ind lvl v) = iterencode ind lvl v"
    using skip_ws_starts[OF starts_value_iterencode, of ind lvl v "[]"] by simp
  moreover have "parse_value (iterencode ind lvl v) = Some (v, [])"
    using parse_value_iterencode[OF wf, of "[]" ind lvl] by (simp add: value_end_def)
  ultimately show ?thesis by (simp add: json_loads_def skip_ws_def)
qed

lemma json_loads_dumps: "wf_json v \<Longrightarrow> json_loads (json_dumps v) = Some v"
  by (simp add: json_dumps_def json_loads_iterencode)

lemma json_loads_dumps_indent: "wf_json v \<Longrightarrow> json_loads (json_dumps_indent n v) = Some v"
  by (simp add: json_dumps_indent_def json_loads_iterencode)

subsection \<open>Dictionaries, and what the decoder returns\<close>

lemma dict_set_keys: "fst ` set (dict_set d k v) = insert k (fst ` set d)"
proof (induction d)
  case Nil
  then show ?case by simp
next
  case (Cons p d)
  obtain k' v' where p: "p = (k', v')" by (cases p)
  show ?case using Cons p by (cases "k' = k") auto
qed

lemma dict_set_distinct: "distinct (map fst d) \<Longrightarrow> distinct (map fst (dict_set d k v))"
proof (induction d)
  case Nil
  then show ?case by simp
next
  case (Cons p d)
  obtain k' v' where p: "p = (k', v')" by (cases p)
  show ?case
  proof (cases "k' = k")
    case True
    then show ?thesis using Cons.prems p by simp
  next
    case False
    have "k' \<notin> fst ` set (dict_set d k v)" using Cons.prems p False by (simp add: dict_set_keys)
    then show ?thesis using Cons p False by simp
  qed
qed

lemma dict_set_values: "p \<in> set (dict_set d k v) \<Longrightarrow> p = (k, v) \<or> p \<in> set d"
  by (induction d) (auto split: if_splits)

lemma map_of_dict_set: "map_of (dict_set d k v) = (map_of d)(k \<mapsto> v)"
  by (induction d) (auto simp: fun_eq_iff)

lemma foldl_dict_set_wf:
  assumes "distinct (map fst d)" "\<forall>p \<in> set d. wf_json (snd p)" "\<forall>p \<in> set ps. wf_json (snd p)"
  shows "distinct (map fst (foldl (\<lambda>d (k, v). dict_set d k v) d ps))
     \<and> (\<forall>p \<in> set (foldl (\<lambda>d (k, v). dict_set d k v) d ps). wf_json (snd p))"
  using assms
proof (induction ps arbitrary: d)
  case Nil
  then show ?case by simp
next
  case (Cons q ps)
  obtain k v where q: "q = (k, v)" by (cases q)
  have 1: "distinct (map fst (dict_set d k v))" using Cons.prems(1) by (rule dict_set_distinct)
  have 2: "\<forall>p \<in> set (dict_set d k v). wf_json (snd p)"
    using Cons.prems(2,3) q dict_set_values[of _ d k v] by fastforce
  have 3: "\<forall>p \<in> set ps. wf_json (snd p)" using Cons.prems(3) by simp
  show ?case using Cons.IH[OF 1 2 3] q by simp
qed

lemma wf_dict_of_pairs:
  assumes "\<forall>p \<in> set ps. wf_json (snd p)"
  shows "wf_json (JObj (dict_of_pairs ps))"
proof -
  have "distinct (map fst (foldl (\<lambda>d (k, v). dict_set d k v) [] ps))
     \<and> (\<forall>p \<in> set (foldl (\<lambda>d (k, v). dict_set d k v) [] ps). wf_json (snd p))"
    by (rule foldl_dict_set_wf) (simp_all add: assms)
  then show ?thesis unfolding dict_of_pairs_def by simp
qed

lemma wf_scan_number: "scan_number s = Some (v, r) \<Longrightarrow> wf_json v"
  unfolding scan_number_def by (fastforce split: option.split_asm if_split_asm)

lemma parse_wf:
  "parse_value s = Some (v, r) \<Longrightarrow> wf_json v"
  "parse_items s = Some (vs, r2) \<Longrightarrow> \<forall>v \<in> set vs. wf_json v"
  "parse_members s = Some (ps, r3) \<Longrightarrow> \<forall>p \<in> set ps. wf_json (snd p)"
proof (induction s and s and s arbitrary: v r and vs r2 and ps r3
    rule: parse_value_parse_items_parse_members.induct)
  case 1
  then show ?case by simp
next
  case (2 c r')
  show ?case
  proof (cases "c = CHR 0x22")
    case True
    then show ?thesis using "2.prems" by (auto split: option.splits)
  next
    case nq: False
    show ?thesis
    proof (cases "c = CHR ''{''")
      case True
      show ?thesis
      proof (cases "skip_ws r'")
        case Nil
        then show ?thesis using "2.prems" True by simp
      next
        case (Cons d r1)
        show ?thesis
        proof (cases "d = CHR ''}''")
          case True
          then show ?thesis using "2.prems" \<open>c = CHR ''{''\<close> Cons by auto
        next
          case False
          then obtain ps r2 where ps: "parse_members (d # r1) = Some (ps, r2)" "v = JObj (dict_of_pairs ps)"
            using "2.prems" \<open>c = CHR ''{''\<close> Cons by (auto split: option.splits)
          have "\<forall>p \<in> set ps. wf_json (snd p)"
            using "2.IH"(1)[OF nq \<open>c = CHR ''{''\<close> Cons False ps(1)] .
          then show ?thesis using ps(2) by (simp only: wf_dict_of_pairs)
        qed
      qed
    next
      case nb: False
      show ?thesis
      proof (cases "c = CHR ''[''")
        case True
        show ?thesis
        proof (cases "skip_ws r'")
          case Nil
          then show ?thesis using "2.prems" True by simp
        next
          case (Cons d r1)
          show ?thesis
          proof (cases "d = CHR '']''")
            case True
            then show ?thesis using "2.prems" \<open>c = CHR ''[''\<close> Cons by auto
          next
            case False
            then obtain vs r2 where vs: "parse_items (d # r1) = Some (vs, r2)" "v = JArr vs"
              using "2.prems" \<open>c = CHR ''[''\<close> Cons by (auto split: option.splits)
            have "\<forall>v \<in> set vs. wf_json v"
              using "2.IH"(2)[OF nq nb \<open>c = CHR ''[''\<close> Cons False vs(1)] .
            then show ?thesis using vs(2) by simp
          qed
        qed
      next
        case False
        then show ?thesis using "2.prems" nq nb wf_scan_number
          by (auto split: if_splits)
      qed
    qed
  qed
next
  case (3 s)
  obtain v r where v: "parse_value s = Some (v, r)"
    using "3.prems" by (subst (asm) parse_items.simps) (auto split: option.splits)
  have wv: "wf_json v" using "3.IH"(1)[OF v] .
  show ?case
  proof (cases "skip_ws r")
    case Nil
    then show ?thesis using "3.prems" v by (subst (asm) parse_items.simps) simp
  next
    case (Cons d r1)
    show ?thesis
    proof (cases "d = CHR '']''")
      case True
      then show ?thesis using "3.prems" v Cons wv by (subst (asm) parse_items.simps) auto
    next
      case False
      then obtain vs' r' where c: "d = CHR '','' \<and> length r1 < length s"
        "parse_items (skip_ws r1) = Some (vs', r')" "vs = v # vs'"
        using "3.prems" v Cons by (subst (asm) parse_items.simps) (auto split: option.splits if_splits)
      have "\<forall>v \<in> set vs'. wf_json v"
        using "3.IH"(2)[OF v refl Cons False c(1) c(2)] .
      then show ?thesis using c(3) wv by simp
    qed
  qed
next
  case (4 s)
  from "4.prems" obtain q r k r1 col r2 v r3' d r4 where
    s: "s = q # r" "q = CHR 0x22" "scanstring r = Some (k, r1)" "skip_ws r1 = col # r2"
      "\<not> (col \<noteq> CHR '':'' \<or> \<not> length r2 < length s)" "parse_value (skip_ws r2) = Some (v, r3')"
      "skip_ws r3' = d # r4"
    by (subst (asm) parse_members.simps) (auto split: option.splits if_splits list.splits)
  have wv: "wf_json v"
    using "4.IH"(1)[OF s(1) _ s(3) refl s(4) s(5) s(6)] s(2) by simp
  show ?case
  proof (cases "d = CHR ''}''")
    case True
    then have "ps = [(k, v)]"
      using "4.prems" s by (subst (asm) parse_members.simps) auto
    then show ?thesis using wv by simp
  next
    case False
    then obtain ps' r' where c: "d = CHR '','' \<and> length r4 < length s"
      "parse_members (skip_ws r4) = Some (ps', r')" "ps = (k, v) # ps'"
      using "4.prems" s by (subst (asm) parse_members.simps) (auto split: option.splits if_splits)
    have "\<forall>p \<in> set ps'. wf_json (snd p)"
      using "4.IH"(2)[OF s(1) _ s(3) refl s(4) s(5) s(6) refl s(7) False c(1) c(2)] s(2) by simp
    then show ?thesis using c(3) wv by simp
  qed
qed

lemma json_loads_wf: "json_loads s = Some v \<Longrightarrow> wf_json v"
  by (auto simp: json_loads_def split: option.splits if_splits dest: parse_wf(1))

subsection \<open>Paths, directories and files\<close>

lemma walk_same_dirs:
  assumes "\<And>l. node_at fs' l = Some Dir \<longleftrightarrow> node_at fs l = Some Dir"
  shows "walk fs' cur cs = walk fs cur cs"
proof (induction cs arbitrary: cur)
  case Nil
  then show ?case by simp
next
  case (Cons c cs)
  show ?case using Cons.IH assms by simp
qed

lemma extends_refl: "extends fs fs"
  by (simp add: extends_def)

lemma extends_trans: "extends a b \<Longrightarrow> extends b c \<Longrightarrow> extends a c"
  unfolding extends_def by (metis option.distinct(1))

lemma extends_dir: "extends fs fs' \<Longrightarrow> node_at fs l = Some Dir \<Longrightarrow> node_at fs' l = Some Dir"
  unfolding extends_def node_at_def by (metis option.distinct(1))

lemma extends_mkdir:
  "node_at fs l = None \<Longrightarrow> extends fs (fs\<lparr>nodes := (nodes fs)(l \<mapsto> Dir)\<rparr>)"
  by (auto simp: extends_def node_at_def split: if_splits)

lemma walk_mono:
  "extends fs fs' \<Longrightarrow> walk fs cur cs = Inr l \<Longrightarrow> walk fs' cur cs = Inr l"
proof (induction cs arbitrary: cur)
  case Nil
  then show ?case by simp
next
  case (Cons c cs)
  show ?case
    using Cons.prems Cons.IH extends_dir[OF Cons.prems(1)]
    by (auto split: if_splits)
qed

lemma mkdirs_extends: "mkdirs fs cur cs = Inr fs' \<Longrightarrow> extends fs fs'"
proof (induction cs arbitrary: fs cur)
  case Nil
  then show ?case by (simp add: extends_refl)
next
  case (Cons c cs)
  show ?case
  proof (cases "c = [] \<or> c = ''.'' \<or> c = ''..''")
    case True
    then show ?thesis using Cons by (auto split: if_splits)
  next
    case False
    show ?thesis
    proof (cases "node_at fs (cur @ [c])")
      case None
      then have "mkdirs (fs\<lparr>nodes := (nodes fs)(cur @ [c] \<mapsto> Dir)\<rparr>) (cur @ [c]) cs = Inr fs'"
        using Cons.prems False by simp
      then have "extends (fs\<lparr>nodes := (nodes fs)(cur @ [c] \<mapsto> Dir)\<rparr>) fs'" by (rule Cons.IH)
      then show ?thesis using extends_mkdir[OF None] extends_trans by blast
    next
      case (Some n)
      then show ?thesis using Cons False by (cases n) auto
    qed
  qed
qed

lemma mkdirs_walk: "mkdirs fs cur cs = Inr fs' \<Longrightarrow> \<exists>l. walk fs' cur cs = Inr l"
proof (induction cs arbitrary: fs cur)
  case Nil
  then show ?case by simp
next
  case (Cons c cs)
  show ?case
  proof (cases "c = [] \<or> c = ''.'' \<or> c = ''..''")
    case True
    then show ?thesis using Cons by (auto split: if_splits)
  next
    case False
    show ?thesis
    proof (cases "node_at fs (cur @ [c])")
      case None
      define fs1 where "fs1 = fs\<lparr>nodes := (nodes fs)(cur @ [c] \<mapsto> Dir)\<rparr>"
      have m: "mkdirs fs1 (cur @ [c]) cs = Inr fs'"
        using Cons.prems False None by (simp add: fs1_def)
      have "node_at fs1 (cur @ [c]) = Some Dir" by (simp add: fs1_def node_at_def)
      then have "node_at fs' (cur @ [c]) = Some Dir"
        using extends_dir[OF mkdirs_extends[OF m]] by simp
      then show ?thesis using Cons.IH[OF m] False by simp
    next
      case (Some n)
      show ?thesis
      proof (cases n)
        case Dir
        then have m: "mkdirs fs (cur @ [c]) cs = Inr fs'" using Cons.prems False Some by simp
        have "node_at fs' (cur @ [c]) = Some Dir"
          using extends_dir[OF mkdirs_extends[OF m]] Some Dir by simp
        then show ?thesis using Cons.IH[OF m] False by simp
      next
        case (File t)
        then show ?thesis using Cons.prems False Some by simp
      qed
    qed
  qed
qed

lemma walk_mkdirs: "walk fs cur cs = Inr l \<Longrightarrow> mkdirs fs cur cs = Inr fs"
proof (induction cs arbitrary: cur)
  case Nil
  then show ?case by simp
next
  case (Cons c cs)
  then show ?case by (auto split: if_splits)
qed

lemma mkdirs_idem: "mkdirs fs cur cs = Inr fs' \<Longrightarrow> mkdirs fs' cur cs = Inr fs'"
  using mkdirs_walk walk_mkdirs by blast

lemma start_extends: "extends fs fs' \<Longrightarrow> start fs' p = start fs p"
  by (simp add: start_def extends_def)

lemma makedirs_idem:
  assumes "makedirs fs p = Inr fs'"
  shows "makedirs fs' p = Inr fs'"
proof -
  have p: "p \<noteq> []" using assms by (auto simp: makedirs_def split: if_splits)
  then have m: "mkdirs fs (start fs p) (components p) = Inr fs'"
    using assms by (simp add: makedirs_def)
  have "start fs' p = start fs p" using mkdirs_extends[OF m] by (rule start_extends)
  then show ?thesis using mkdirs_idem[OF m] p by (simp add: makedirs_def)
qed

lemma walk_filter: "walk fs cur (filter (\<lambda>c. c \<noteq> []) cs) = walk fs cur cs"
proof (induction cs arbitrary: cur)
  case Nil
  then show ?case by simp
next
  case (Cons c cs)
  then show ?case by simp
qed

lemma components_nonempty: "components s \<noteq> []"
  by (induction s) (auto split: list.splits)

lemma components_append: "components (a @ CHR ''/'' # b) = components a @ components b"
proof (induction a)
  case Nil
  then show ?case by simp
next
  case (Cons c a)
  obtain x xs where x: "components a = x # xs"
    using components_nonempty[of a] by (cases "components a") auto
  show ?case using Cons x by simp
qed

lemma components_noslash: "CHR ''/'' \<notin> set t \<Longrightarrow> components t = [t]"
  by (induction t) auto

lemma rstrip_split: "x = rev (dropWhile Q (rev x)) @ rev (takeWhile Q (rev x))"
proof -
  have "rev x = takeWhile Q (rev x) @ dropWhile Q (rev x)" by simp
  then have "rev (rev x) = rev (takeWhile Q (rev x) @ dropWhile Q (rev x))" by (rule arg_cong)
  then show ?thesis by (simp only: rev_rev_ident rev_append)
qed

lemma components_rstrip:
  "filter (\<lambda>c. c \<noteq> []) (components (rev (dropWhile (\<lambda>c. c = CHR ''/'') (rev x))))
   = filter (\<lambda>c. c \<noteq> []) (components x)"
proof (induction x rule: rev_induct)
  case Nil
  then show ?case by simp
next
  case (snoc c x)
  show ?case
  proof (cases "c = CHR ''/''")
    case True
    have "components (x @ [CHR ''/'']) = components x @ [[]]"
      using components_append[of x "[]"] by simp
    then show ?thesis using snoc True by simp
  next
    case False
    then show ?thesis by simp
  qed
qed

lemma head_tail: "p = head_part p @ tail_part p"
  unfolding head_part_def tail_part_def by (rule rstrip_split)

lemma tail_noslash: "CHR ''/'' \<notin> set (tail_part p)"
  unfolding tail_part_def using set_takeWhileD[of "CHR ''/''" "\<lambda>c. c \<noteq> CHR ''/''" "rev p"] by auto

lemma head_last: "head_part p \<noteq> [] \<Longrightarrow> \<exists>h. head_part p = h @ ''/''"
proof -
  assume ne: "head_part p \<noteq> []"
  then have d: "dropWhile (\<lambda>c. c \<noteq> CHR ''/'') (rev p) \<noteq> []" by (simp add: head_part_def)
  then have "hd (dropWhile (\<lambda>c. c \<noteq> CHR ''/'') (rev p)) = CHR ''/''"
    using hd_dropWhile[OF d] by simp
  then obtain r where "dropWhile (\<lambda>c. c \<noteq> CHR ''/'') (rev p) = CHR ''/'' # r"
    using d by (cases "dropWhile (\<lambda>c. c \<noteq> CHR ''/'') (rev p)") auto
  then have "head_part p = rev r @ ''/''" by (simp add: head_part_def)
  then show ?thesis by blast
qed

lemma dirname_eq:
  "dirname p = (if head_part p \<noteq> [] \<and> (\<exists>c \<in> set (head_part p). c \<noteq> CHR ''/'')
                then rev (dropWhile (\<lambda>c. c = CHR ''/'') (rev (head_part p))) else head_part p)"
  unfolding dirname_def head_part_def Let_def by (rule refl)

lemma dirname_components:
  assumes "dirname p \<noteq> []"
  shows "filter (\<lambda>c. c \<noteq> []) (components (dirname p)) = filter (\<lambda>c. c \<noteq> []) (butlast (components p))"
proof -
  have hne: "head_part p \<noteq> []" using assms by (auto simp: dirname_eq split: if_splits)
  then obtain h where h: "head_part p = h @ ''/''" using head_last by blast
  have "components p = components (h @ CHR ''/'' # tail_part p)"
    using head_tail[of p] h by simp
  then have "components p = components h @ [tail_part p]"
    by (simp add: components_append components_noslash[OF tail_noslash])
  then have bl: "butlast (components p) = components h" by simp
  have hh: "components (head_part p) = components h @ [[]]"
    using components_append[of h "[]"] h by simp
  show ?thesis
  proof (cases "\<exists>c \<in> set (head_part p). c \<noteq> CHR ''/''")
    case True
    then have "dirname p = rev (dropWhile (\<lambda>c. c = CHR ''/'') (rev (head_part p)))"
      using hne by (simp add: dirname_eq)
    then have "filter (\<lambda>c. c \<noteq> []) (components (dirname p)) = filter (\<lambda>c. c \<noteq> []) (components (head_part p))"
      by (simp only: components_rstrip)
    then show ?thesis by (simp add: hh bl)
  next
    case False
    then have "dirname p = head_part p" by (simp add: dirname_eq)
    then show ?thesis by (simp add: hh bl)
  qed
qed

lemma dirname_prefix: "\<exists>r. p = dirname p @ r"
proof -
  have 1: "p = head_part p @ tail_part p" by (rule head_tail)
  have 2: "head_part p = rev (dropWhile (\<lambda>c. c = CHR ''/'') (rev (head_part p)))
      @ rev (takeWhile (\<lambda>c. c = CHR ''/'') (rev (head_part p)))"
    by (rule rstrip_split)
  show ?thesis
  proof (cases "head_part p \<noteq> [] \<and> (\<exists>c \<in> set (head_part p). c \<noteq> CHR ''/'')")
    case True
    then have "dirname p = rev (dropWhile (\<lambda>c. c = CHR ''/'') (rev (head_part p)))"
      by (simp add: dirname_eq)
    then show ?thesis using 1 2 by (metis append.assoc)
  next
    case False
    then have "dirname p = head_part p" by (auto simp: dirname_eq)
    then show ?thesis using 1 by metis
  qed
qed

lemma start_dirname: "dirname p \<noteq> [] \<Longrightarrow> start fs (dirname p) = start fs p"
proof -
  assume ne: "dirname p \<noteq> []"
  obtain r where r: "p = dirname p @ r" using dirname_prefix by blast
  then have "hd p = hd (dirname p)" using ne by (metis hd_append2)
  moreover have "p \<noteq> []" using r ne by auto
  ultimately show ?thesis using ne by (simp add: start_def)
qed

lemma walk_dirname:
  assumes "dirname p \<noteq> []" "walk fs (start fs p) (butlast (components p)) = Inr d"
  shows "walk fs (start fs (dirname p)) (components (dirname p)) = Inr d"
proof -
  have "walk fs (start fs p) (components (dirname p))
      = walk fs (start fs p) (filter (\<lambda>c. c \<noteq> []) (components (dirname p)))"
    by (simp add: walk_filter)
  also have "\<dots> = walk fs (start fs p) (filter (\<lambda>c. c \<noteq> []) (butlast (components p)))"
    by (simp add: dirname_components[OF assms(1)])
  also have "\<dots> = Inr d" using assms(2) by (simp add: walk_filter)
  finally show ?thesis by (simp add: start_dirname[OF assms(1)])
qed

lemma file_locationE:
  assumes "file_location fs p = Inr l"
  obtains d where "p \<noteq> []" "walk fs (start fs p) (butlast (components p)) = Inr d"
    "\<not> names_directory (last (components p))" "l = d @ [last (components p)]"
  using assms by (auto simp: file_location_def split: if_splits sum.splits)

lemma file_location_nonroot: "file_location fs p = Inr l \<Longrightarrow> l \<noteq> []"
  by (erule file_locationE) simp

lemma write_fileE:
  assumes "write_file fs p t = Inr fs'"
  obtains l where "file_location fs p = Inr l" "l \<noteq> []" "nodes fs l \<noteq> Some Dir"
    "fs' = fs\<lparr>nodes := (nodes fs)(l \<mapsto> File t)\<rparr>"
proof -
  obtain l where l: "file_location fs p = Inr l"
    using assms by (auto simp: write_file_def split: sum.splits)
  have ne: "l \<noteq> []" using l by (rule file_location_nonroot)
  have "nodes fs l \<noteq> Some Dir \<and> fs' = fs\<lparr>nodes := (nodes fs)(l \<mapsto> File t)\<rparr>"
    using assms l ne by (auto simp: write_file_def node_at_def split: option.splits node.splits)
  then show ?thesis using that l ne by blast
qed

lemma dirs_after_put:
  assumes "l \<noteq> []" "nodes fs l \<noteq> Some Dir"
  shows "node_at (fs\<lparr>nodes := (nodes fs)(l \<mapsto> File t)\<rparr>) l' = Some Dir \<longleftrightarrow> node_at fs l' = Some Dir"
  using assms by (auto simp: node_at_def)

lemma write_walk:
  assumes "write_file fs p t = Inr fs'"
  shows "walk fs' cur cs = walk fs cur cs"
proof -
  obtain l where l: "l \<noteq> []" "nodes fs l \<noteq> Some Dir" "fs' = fs\<lparr>nodes := (nodes fs)(l \<mapsto> File t)\<rparr>"
    using assms by (rule write_fileE)
  show ?thesis unfolding l(3) by (rule walk_same_dirs) (rule dirs_after_put[OF l(1,2)])
qed

lemma write_start: "write_file fs p t = Inr fs' \<Longrightarrow> start fs' q = start fs q"
  by (erule write_fileE) (simp add: start_def)

lemma write_file_location:
  "write_file fs p t = Inr fs' \<Longrightarrow> file_location fs' q = file_location fs q"
  by (simp add: file_location_def write_walk write_start)

lemma read_after_write:
  assumes "write_file fs p t = Inr fs'"
  shows "read_file fs' p = Inr t"
proof -
  obtain l where l: "file_location fs p = Inr l" "l \<noteq> []" "fs' = fs\<lparr>nodes := (nodes fs)(l \<mapsto> File t)\<rparr>"
    using assms by (rule write_fileE)
  have "file_location fs' p = Inr l" using write_file_location[OF assms] l(1) by simp
  then show ?thesis using l(2,3) by (simp add: read_file_def node_at_def)
qed

lemma path_exists_read:
  assumes "read_file fs p = Inr t"
  shows "path_exists fs p"
proof -
  obtain l where l: "file_location fs p = Inr l" "node_at fs l = Some (File t)"
    using assms by (auto simp: read_file_def split: sum.splits option.splits node.splits)
  from l(1) show ?thesis
  proof (rule file_locationE)
    fix d assume "p \<noteq> []" "walk fs (start fs p) (butlast (components p)) = Inr d"
      "l = d @ [last (components p)]"
    then show ?thesis using l(2) by (simp add: path_exists_def)
  qed
qed

lemma write_path_exists: "write_file fs p t = Inr fs' \<Longrightarrow> path_exists fs' p"
  using read_after_write path_exists_read by blast

lemma write_makedirs:
  assumes "write_file fs p t = Inr fs'" "makedirs fs q = Inr fs"
  shows "makedirs fs' q = Inr fs'"
proof -
  have q: "q \<noteq> []" using assms(2) by (auto simp: makedirs_def split: if_splits)
  then have "mkdirs fs (start fs q) (components q) = Inr fs"
    using assms(2) by (simp add: makedirs_def)
  then obtain l where "walk fs (start fs q) (components q) = Inr l"
    using mkdirs_walk by blast
  then have "walk fs' (start fs' q) (components q) = Inr l"
    by (simp add: write_walk[OF assms(1)] write_start[OF assms(1)])
  then show ?thesis using q by (simp add: makedirs_def walk_mkdirs)
qed

lemma makedirs_extends: "makedirs fs p = Inr fs' \<Longrightarrow> extends fs fs'"
  by (auto simp: makedirs_def split: if_splits dest: mkdirs_extends)

lemma read_file_extends:
  assumes "extends fs fs'" "read_file fs p = Inr t"
  shows "read_file fs' p = Inr t"
proof -
  obtain l where l: "file_location fs p = Inr l" "node_at fs l = Some (File t)"
    using assms(2) by (auto simp: read_file_def split: sum.splits option.splits node.splits)
  have ne: "l \<noteq> []" using l(1) by (rule file_location_nonroot)
  from l(1) have "file_location fs' p = Inr l"
  proof (rule file_locationE)
    fix d assume d: "p \<noteq> []" "walk fs (start fs p) (butlast (components p)) = Inr d"
      "\<not> names_directory (last (components p))" "l = d @ [last (components p)]"
    have "walk fs' (start fs' p) (butlast (components p)) = Inr d"
      using walk_mono[OF assms(1) d(2)] start_extends[OF assms(1)] by simp
    then show ?thesis using d by (simp add: file_location_def)
  qed
  moreover have "node_at fs' l = Some (File t)"
    using assms(1) l(2) ne unfolding extends_def node_at_def by (metis option.distinct(1))
  ultimately show ?thesis by (simp add: read_file_def)
qed

lemma read_file_makedirs:
  assumes "read_file fs p = Inr t" "dirname p \<noteq> []"
  shows "makedirs fs (dirname p) = Inr fs"
proof -
  obtain l where l: "file_location fs p = Inr l"
    using assms(1) by (auto simp: read_file_def split: sum.splits)
  from l obtain d where "walk fs (start fs p) (butlast (components p)) = Inr d"
    by (rule file_locationE)
  then have "walk fs (start fs (dirname p)) (components (dirname p)) = Inr d"
    by (rule walk_dirname[OF assms(2)])
  then show ?thesis using assms(2) by (simp add: makedirs_def walk_mkdirs)
qed

lemma ensure_existing:
  assumes "read_file fs p = Inr t" "dirname p \<noteq> []"
  shows "ensure_memory_file p fs = Inr fs"
  using read_file_makedirs[OF assms] path_exists_read[OF assms(1)]
  by (simp add: ensure_memory_file_def)

lemma ensureE:
  assumes "ensure_memory_file p fs = Inr fs'"
  obtains (kept) fs1 where "makedirs fs (dirname p) = Inr fs1" "path_exists fs1 p" "fs' = fs1"
  | (created) fs1 where "makedirs fs (dirname p) = Inr fs1" "\<not> path_exists fs1 p"
      "write_file fs1 p (json_dumps (JObj [])) = Inr fs'"
  using assms by (auto simp: ensure_memory_file_def split: sum.splits if_splits)

lemma ensure_exists: "ensure_memory_file p fs = Inr fs' \<Longrightarrow> path_exists fs' p"
  by (erule ensureE) (simp_all add: write_path_exists)

lemma ensure_idem:
  assumes "ensure_memory_file p fs = Inr fs'"
  shows "ensure_memory_file p fs' = Inr fs'"
  using assms
proof (cases rule: ensureE)
  case (kept fs1)
  then show ?thesis using makedirs_idem[of fs "dirname p" fs1]
    by (simp add: ensure_memory_file_def)
next
  case (created fs1)
  have "makedirs fs1 (dirname p) = Inr fs1" using created(1) by (rule makedirs_idem)
  then have "makedirs fs' (dirname p) = Inr fs'" using write_makedirs[OF created(3)] by simp
  then show ?thesis using write_path_exists[OF created(3)]
    by (simp add: ensure_memory_file_def)
qed

lemma ensure_keeps:
  assumes "ensure_memory_file p fs = Inr fs'" "read_file fs p = Inr t"
  shows "read_file fs' p = Inr t"
  using assms(1)
proof (cases rule: ensureE)
  case (kept fs1)
  then show ?thesis using read_file_extends[OF makedirs_extends assms(2)] by simp
next
  case (created fs1)
  have "read_file fs1 p = Inr t" using read_file_extends[OF makedirs_extends assms(2)] created(1) by simp
  then have "path_exists fs1 p" by (rule path_exists_read)
  then show ?thesis using created(2) by simp
qed

lemma ensure_created:
  assumes "ensure_memory_file p fs = Inr fs'" "makedirs fs (dirname p) = Inr fs1" "\<not> path_exists fs1 p"
  shows "read_file fs' p = Inr ''{}''"
proof -
  have "write_file fs1 p (json_dumps (JObj [])) = Inr fs'"
    using assms by (simp add: ensure_memory_file_def)
  then have "read_file fs' p = Inr (json_dumps (JObj []))" by (rule read_after_write)
  then show ?thesis by (simp add: json_dumps_def)
qed

subsection \<open>The shared memory store\<close>

lemma write_over_file:
  assumes "read_file fs p = Inr t"
  shows "\<exists>fs'. write_file fs p t' = Inr fs'"
proof -
  obtain l where l: "file_location fs p = Inr l" "node_at fs l = Some (File t)"
    using assms by (auto simp: read_file_def split: sum.splits option.splits node.splits)
  then show ?thesis by (simp add: write_file_def)
qed

lemma read_store:
  assumes "read_file fs P = Inr text" "dirname P \<noteq> []"
  shows "read_shared_memory P key fs =
     (case json_loads text of
        None \<Rightarrow> Inl JSONDecodeError
      | Some data \<Rightarrow>
         (case key of
            None \<Rightarrow> Inr (json_dumps data, fs)
          | Some k \<Rightarrow>
             (case data of
                JObj kvs \<Rightarrow> Inr (json_dumps (JObj [(k, dict_get kvs k)]), fs)
              | _ \<Rightarrow> Inl AttributeError)))"
  using ensure_existing[OF assms] assms(1) by (simp add: read_shared_memory_def)

lemma write_store:
  assumes "read_file fs P = Inr text" "dirname P \<noteq> []" "json_loads text = Some (JObj kvs)"
  shows "\<exists>fs'. write_shared_memory P k v fs =
      Inr (json_dumps (JObj [(''status'', JStr ''ok''), (''key'', JStr k), (''value'', v)]), fs')
    \<and> read_file fs' P = Inr (json_dumps_indent 2 (JObj (dict_set kvs k v)))"
proof -
  obtain fs' where w: "write_file fs P (json_dumps_indent 2 (JObj (dict_set kvs k v))) = Inr fs'"
    using write_over_file[OF assms(1)] by blast
  have "write_shared_memory P k v fs =
      Inr (json_dumps (JObj [(''status'', JStr ''ok''), (''key'', JStr k), (''value'', v)]), fs')"
    using ensure_existing[OF assms(1,2)] assms(1,3) w by (simp add: write_shared_memory_def)
  then show ?thesis using read_after_write[OF w] by blast
qed

lemma dict_get_dict_set: "dict_get (dict_set kvs k v) k = v"
  by (simp add: dict_get_def map_of_dict_set)

lemma wf_dict_set:
  assumes "wf_json (JObj kvs)" "wf_json v"
  shows "wf_json (JObj (dict_set kvs k v))"
  using assms dict_set_distinct[of kvs k v] dict_set_values[of _ kvs k v] by fastforce

text \<open>
  Claim C8. The store file exists and holds a JSON object, and \<open>k\<close> is not one of its
  keys: \<open>read_shared_memory(k)\<close> returns the text of \<open>{k: null}\<close> and raises nothing; the
  file system is as it was. (The path of the store has a directory part, as the default
  \<open>memory/shared_memory.json\<close> has; \<open>os.makedirs\<close> refuses the empty directory name of a
  bare file name.)
\<close>

theorem read_absent_key:
  assumes "read_file fs P = Inr text" and "json_loads text = Some (JObj kvs)"
    and "k \<notin> fst ` set kvs" and "dirname P \<noteq> []"
  shows "read_shared_memory P (Some k) fs = Inr (json_dumps (JObj [(k, JNull)]), fs)"
proof -
  have "map_of kvs k = None" using assms(3) by (simp add: map_of_eq_None_iff)
  then have "dict_get kvs k = JNull" by (simp add: dict_get_def)
  then show ?thesis using read_store[OF assms(1,4), of "Some k"] assms(2) by simp
qed

text \<open>
  Claim C2. The store file holds a JSON object and \<open>v\<close> is a JSON value: the call
  \<open>write_shared_memory(k, v)\<close> returns its confirmation, and \<open>read_shared_memory(k)\<close> in
  the state it leaves returns the text of the one-entry object \<open>{k: v}\<close>.
\<close>

theorem write_then_read:
  assumes "read_file fs P = Inr text" and "json_loads text = Some (JObj kvs)"
    and "dirname P \<noteq> []" and "wf_json v"
  shows "\<exists>fs'. write_shared_memory P k v fs =
        Inr (json_dumps (JObj [(''status'', JStr ''ok''), (''key'', JStr k), (''value'', v)]), fs')
      \<and> read_shared_memory P (Some k) fs' = Inr (json_dumps (JObj [(k, v)]), fs')"
proof -
  obtain fs' where w: "write_shared_memory P k v fs =
      Inr (json_dumps (JObj [(''status'', JStr ''ok''), (''key'', JStr k), (''value'', v)]), fs')"
    and r: "read_file fs' P = Inr (json_dumps_indent 2 (JObj (dict_set kvs k v)))"
    using write_store[OF assms(1,3,2)] by blast
  have "wf_json (JObj kvs)" using assms(2) by (rule json_loads_wf)
  then have "wf_json (JObj (dict_set kvs k v))" using assms(4) by (rule wf_dict_set)
  then have "json_loads (json_dumps_indent 2 (JObj (dict_set kvs k v))) = Some (JObj (dict_set kvs k v))"
    by (rule json_loads_dumps_indent)
  then have "read_shared_memory P (Some k) fs' = Inr (json_dumps (JObj [(k, v)]), fs')"
    using read_store[OF r assms(3), of "Some k"] by (simp add: dict_get_dict_set)
  then show ?thesis using w by blast
qed

lemma dirname_default: "dirname default_shared_memory_path = ''memory''"
  by (simp add: dirname_def default_shared_memory_path_def)

lemma components_default:
  "components default_shared_memory_path = [''memory'', ''shared_memory.json'']"
  by (simp add: default_shared_memory_path_def)

lemma read_store_holding: "read_file (store_holding t) default_shared_memory_path = Inr t"
  by (simp add: read_file_def file_location_def components_default start_def store_holding_def
      node_at_def names_directory_def) (simp add: default_shared_memory_path_def)

lemma loads_a1: \<open>json_loads ''{"a": 1}'' = Some (JObj [(''a'', JInt 1)])\<close>
  by code_simp

lemma dumps_b_null: \<open>json_dumps (JObj [(''b'', JNull)]) = ''{"b": null}''\<close>
  by code_simp

theorem read_absent_key_witness:
  \<open>read_shared_memory default_shared_memory_path (Some ''b'') (store_holding ''{"a": 1}'')
     = Inr (''{"b": null}'', store_holding ''{"a": 1}'')\<close>
  using read_absent_key[OF read_store_holding loads_a1, of "''b''"]
  by (simp add: dirname_default dumps_b_null)

lemma dumps_ok: \<open>json_dumps (JObj [(''status'', JStr ''ok''), (''key'', JStr ''b''), (''value'', JArr [JInt 2, JNull])])
   = ''{"status": "ok", "key": "b", "value": [2, null]}''\<close>
  by code_simp

lemma dumps_b_val: \<open>json_dumps (JObj [(''b'', JArr [JInt 2, JNull])]) = ''{"b": [2, null]}''\<close>
  by code_simp

theorem write_then_read_witness:
  \<open>\<exists>fs'. write_shared_memory default_shared_memory_path ''b'' (JArr [JInt 2, JNull]) (store_holding ''{"a": 1}'')
        = Inr (''{"status": "ok", "key": "b", "value": [2, null]}'', fs')
      \<and> read_shared_memory default_shared_memory_path (Some ''b'') fs' = Inr (''{"b": [2, null]}'', fs')\<close>
  using write_then_read[OF read_store_holding loads_a1, of "JArr [JInt 2, JNull]" "''b''"]
  by (simp add: dirname_default dumps_ok dumps_b_val)

lemma apply_writes_Nil: "apply_writes kvs [] = kvs"
  by (simp add: apply_writes_def)

lemma apply_writes_Cons: "apply_writes kvs ((k, v) # ws) = apply_writes (dict_set kvs k v) ws"
  by (simp add: apply_writes_def)

lemma map_of_apply_writes:
  "map_of (apply_writes kvs ws) = fold (\<lambda>(k, v) m. m(k \<mapsto> v)) ws (map_of kvs)"
proof (induction ws arbitrary: kvs)
  case Nil
  then show ?case by (simp add: apply_writes_Nil)
next
  case (Cons w ws)
  obtain k v where w: "w = (k, v)" by (cases w)
  show ?case using Cons[of "dict_set kvs k v"] by (simp add: w apply_writes_Cons map_of_dict_set)
qed

lemma write_store_loads:
  assumes "read_file fs P = Inr text" "dirname P \<noteq> []" "json_loads text = Some (JObj kvs)" "wf_json v"
  shows "\<exists>fs' text'. write_shared_memory P k v fs =
        Inr (json_dumps (JObj [(''status'', JStr ''ok''), (''key'', JStr k), (''value'', v)]), fs')
      \<and> read_file fs' P = Inr text' \<and> json_loads text' = Some (JObj (dict_set kvs k v))"
proof -
  obtain fs' where w: "write_shared_memory P k v fs =
      Inr (json_dumps (JObj [(''status'', JStr ''ok''), (''key'', JStr k), (''value'', v)]), fs')"
    and r: "read_file fs' P = Inr (json_dumps_indent 2 (JObj (dict_set kvs k v)))"
    using write_store[OF assms(1,2,3)] by blast
  have "wf_json (JObj kvs)" using assms(3) by (rule json_loads_wf)
  then have "wf_json (JObj (dict_set kvs k v))" using assms(4) by (rule wf_dict_set)
  then have "json_loads (json_dumps_indent 2 (JObj (dict_set kvs k v))) = Some (JObj (dict_set kvs k v))"
    by (rule json_loads_dumps_indent)
  then show ?thesis using w r by blast
qed

lemma write_all_store:
  assumes "read_file fs P = Inr stored" "json_loads stored = Some (JObj kvs)" "dirname P \<noteq> []"
    "\<forall>w \<in> set ws. wf_json (snd w)"
  shows "\<exists>fs' text'. write_all P ws fs = Inr fs' \<and> read_file fs' P = Inr text'
      \<and> json_loads text' = Some (JObj (apply_writes kvs ws))"
  using assms
proof (induction ws arbitrary: fs stored kvs)
  case Nil
  then show ?case by (auto simp: apply_writes_Nil)
next
  case (Cons w ws)
  obtain k v where w: "w = (k, v)" by (cases w)
  have wf: "wf_json v" using Cons.prems(4) w by simp
  obtain fs1 text1 where 1: "write_shared_memory P k v fs =
        Inr (json_dumps (JObj [(''status'', JStr ''ok''), (''key'', JStr k), (''value'', v)]), fs1)"
      "read_file fs1 P = Inr text1" "json_loads text1 = Some (JObj (dict_set kvs k v))"
    using write_store_loads[OF Cons.prems(1,3,2) wf] by blast
  have "\<forall>w \<in> set ws. wf_json (snd w)" using Cons.prems(4) by simp
  from Cons.IH[OF 1(2) 1(3) Cons.prems(3) this]
  show ?case using 1(1) by (simp add: w apply_writes_Cons)
qed

text \<open>
  Claim C3. The store file holds a JSON object. After \<open>write_shared_memory(k, v)\<close> the
  file holds an object that binds \<open>k\<close> to \<open>v\<close> and every other key to what it was bound
  to before. After any sequence of writes, \<open>read_shared_memory()\<close> without a key returns
  the text of the object in which every written key has the value written last, and the
  keys that were there before and were not written keep their values.
\<close>

theorem writes_last_write_wins:
  assumes "read_file fs P = Inr text" and "json_loads text = Some (JObj kvs)"
    and "dirname P \<noteq> []" and "wf_json v" and "\<forall>w \<in> set ws. wf_json (snd w)"
  shows "(\<exists>fs' text'. write_shared_memory P k v fs =
            Inr (json_dumps (JObj [(''status'', JStr ''ok''), (''key'', JStr k), (''value'', v)]), fs')
          \<and> read_file fs' P = Inr text' \<and> json_loads text' = Some (JObj (dict_set kvs k v))
          \<and> map_of (dict_set kvs k v) = (map_of kvs)(k \<mapsto> v))
       \<and> (\<exists>fs'. write_all P ws fs = Inr fs'
          \<and> read_shared_memory P None fs' = Inr (json_dumps (JObj (apply_writes kvs ws)), fs')
          \<and> json_loads (json_dumps (JObj (apply_writes kvs ws))) = Some (JObj (apply_writes kvs ws))
          \<and> map_of (apply_writes kvs ws) = fold (\<lambda>(k, v) m. m(k \<mapsto> v)) ws (map_of kvs))"
proof
  show "\<exists>fs' text'. write_shared_memory P k v fs =
            Inr (json_dumps (JObj [(''status'', JStr ''ok''), (''key'', JStr k), (''value'', v)]), fs')
          \<and> read_file fs' P = Inr text' \<and> json_loads text' = Some (JObj (dict_set kvs k v))
          \<and> map_of (dict_set kvs k v) = (map_of kvs)(k \<mapsto> v)"
    using write_store_loads[OF assms(1,3,2,4), of k] by (simp add: map_of_dict_set)
next
  obtain fs' text' where a: "write_all P ws fs = Inr fs'" "read_file fs' P = Inr text'"
    "json_loads text' = Some (JObj (apply_writes kvs ws))"
    using write_all_store[OF assms(1,2,3,5)] by blast
  have r: "read_shared_memory P None fs' = Inr (json_dumps (JObj (apply_writes kvs ws)), fs')"
    using read_store[OF a(2) assms(3), of None] a(3) by simp
  have "wf_json (JObj (apply_writes kvs ws))" using a(3) by (rule json_loads_wf)
  then have "json_loads (json_dumps (JObj (apply_writes kvs ws))) = Some (JObj (apply_writes kvs ws))"
    by (rule json_loads_dumps)
  then show "\<exists>fs'. write_all P ws fs = Inr fs'
          \<and> read_shared_memory P None fs' = Inr (json_dumps (JObj (apply_writes kvs ws)), fs')
          \<and> json_loads (json_dumps (JObj (apply_writes kvs ws))) = Some (JObj (apply_writes kvs ws))
          \<and> map_of (apply_writes kvs ws) = fold (\<lambda>(k, v) m. m(k \<mapsto> v)) ws (map_of kvs)"
    using a(1) r map_of_apply_writes by blast
qed

lemma loads_empty_object: "json_loads ''{}'' = Some (JObj [])"
  by code_simp

lemma dumps_x1: \<open>json_dumps (JObj [(''a'', JInt 3), (''b'', JBool True)]) = ''{"a": 3, "b": true}''\<close>
  by code_simp

theorem writes_last_write_wins_witness:
  \<open>\<exists>fs'. write_all default_shared_memory_path [(''a'', JInt 1), (''b'', JBool True), (''a'', JInt 3)]
           (store_holding ''{}'') = Inr fs'
      \<and> read_shared_memory default_shared_memory_path None fs' = Inr (''{"a": 3, "b": true}'', fs')\<close>
proof -
  have w: "\<forall>w \<in> set [(''a'', JInt 1), (''b'', JBool True), (''a'', JInt 3)]. wf_json (snd w)"
    by simp
  have d: "dirname default_shared_memory_path \<noteq> []" by (simp add: dirname_default)
  have a: "apply_writes [] [(''a'', JInt 1), (''b'', JBool True), (''a'', JInt 3)]
      = [(''a'', JInt 3), (''b'', JBool True)]"
    by (simp add: apply_writes_def)
  have "wf_json JNull" by simp
  from writes_last_write_wins[OF read_store_holding loads_empty_object d this w, of "''x''"]
  show ?thesis unfolding a dumps_x1 by blast
qed

text \<open>
  Claim C1 says that a read of a store file that is empty or not JSON raises nothing and
  answers as for an empty object. On the code the read raises \<open>JSONDecodeError\<close>:
  \<open>ensure_memory_file\<close> looks only at whether the file exists, and \<open>json.load\<close> has no
  handler around it. \<open>initialize_shared_memory\<close> of \<open>backend/main.py\<close> does repair such a
  file, at start-up (lemma \<open>initialize_heals_empty_store\<close> below).
\<close>

lemma loads_empty_text: "json_loads '''' = None"
  by (simp add: json_loads_def skip_ws_def)

lemma loads_not_json: "json_loads ''not json'' = None"
  by code_simp

theorem read_unparsable_store_raises:
  "read_shared_memory default_shared_memory_path None (store_holding '''') = Inl JSONDecodeError
   \<and> read_shared_memory default_shared_memory_path (Some ''k'') (store_holding '''') = Inl JSONDecodeError
   \<and> read_shared_memory default_shared_memory_path None (store_holding ''not json'') = Inl JSONDecodeError"
proof -
  have d: "dirname default_shared_memory_path \<noteq> []" by (simp add: dirname_default)
  show ?thesis
    using read_store[OF read_store_holding[of "''''"] d, of None]
      read_store[OF read_store_holding[of "''''"] d, of "Some ''k''"]
      read_store[OF read_store_holding[of "''not json''"] d, of None]
    by (simp add: loads_empty_text loads_not_json)
qed

lemma initialize_heals_empty_store:
  "\<exists>fs'. initialize_shared_memory default_shared_memory_path (store_holding '''') = Inr fs'
     \<and> read_shared_memory default_shared_memory_path None fs' = Inr (''{}'', fs')"
proof -
  have d: "dirname default_shared_memory_path \<noteq> []" by (simp add: dirname_default)
  obtain fs' where w: "write_file (store_holding '''') default_shared_memory_path ''{}'' = Inr fs'"
    using write_over_file[OF read_store_holding] by blast
  have i: "initialize_shared_memory default_shared_memory_path (store_holding '''') = Inr fs'"
    using ensure_existing[OF read_store_holding d] w
    by (simp add: initialize_shared_memory_def read_store_holding strip_def)
  have "read_shared_memory default_shared_memory_path None fs' = Inr (json_dumps (JObj []), fs')"
    using read_store[OF read_after_write[OF w] d, of None] by (simp add: loads_empty_object)
  then show ?thesis using i by (simp add: json_dumps_def)
qed

subsection \<open>\<open>ensure_memory_file\<close>, the pipeline trigger and the report writer\<close>

lemma walk_snoc:
  "walk fs cur (cs @ [c]) = (case walk fs cur cs of Inl e \<Rightarrow> Inl e | Inr d \<Rightarrow> walk fs d [c])"
  by (induction cs arbitrary: cur) auto

lemma path_exists_dir:
  assumes "p \<noteq> []" "walk fs (start fs p) (components p) = Inr l"
  shows "path_exists fs p"
proof -
  have "components p = butlast (components p) @ [last (components p)]"
    using components_nonempty[of p] by simp
  then have "walk fs (start fs p) (butlast (components p) @ [last (components p)]) = Inr l"
    using assms(2) by simp
  then obtain d where d: "walk fs (start fs p) (butlast (components p)) = Inr d"
    "walk fs d [last (components p)] = Inr l"
    unfolding walk_snoc by (auto split: sum.splits)
  have "names_directory (last (components p)) \<or> node_at fs (d @ [last (components p)]) \<noteq> None"
    using d(2) by (auto simp: names_directory_def split: if_splits)
  then show ?thesis using assms(1) d(1) by (simp add: path_exists_def)
qed

lemma makedirs_path_exists:
  assumes "makedirs fs p = Inr fs'"
  shows "path_exists fs' p"
proof -
  have p: "p \<noteq> []" using assms by (auto simp: makedirs_def split: if_splits)
  then have m: "mkdirs fs (start fs p) (components p) = Inr fs'"
    using assms by (simp add: makedirs_def)
  obtain l where "walk fs' (start fs p) (components p) = Inr l" using mkdirs_walk[OF m] by blast
  then have "walk fs' (start fs' p) (components p) = Inr l"
    using start_extends[OF mkdirs_extends[OF m]] by simp
  then show ?thesis using p by (rule path_exists_dir[rotated])
qed

lemma write_keeps_path:
  assumes "write_file fs q t = Inr fs'" "path_exists fs p"
  shows "path_exists fs' p"
proof -
  obtain l where l: "l \<noteq> []" "fs' = fs\<lparr>nodes := (nodes fs)(l \<mapsto> File t)\<rparr>"
    using assms(1) by (rule write_fileE)
  have n: "\<And>l'. node_at fs l' \<noteq> None \<Longrightarrow> node_at fs' l' \<noteq> None"
    using l by (auto simp: node_at_def)
  show ?thesis using assms(2) n
    by (auto simp: path_exists_def write_walk[OF assms(1)] write_start[OF assms(1)] split: sum.splits)
qed

lemma ensure_makes_directory:
  assumes "ensure_memory_file p fs = Inr fs'"
  shows "path_exists fs' (dirname p)"
  using assms
proof (cases rule: ensureE)
  case (kept fs1)
  then show ?thesis using makedirs_path_exists by blast
next
  case (created fs1)
  then show ?thesis using makedirs_path_exists write_keeps_path by blast
qed

text \<open>
  Claim C5, as the code has it. When \<open>ensure_memory_file\<close> returns, the store path exists
  and so does its directory; a file that was there holds the text it held, whatever that
  text is; a file that was missing after the directories were made holds \<open>{}\<close>; and a
  second call returns the same state. The function raises \<open>OSError\<close> when the operating
  system refuses a directory or the file.
\<close>

theorem ensure_memory_file_guarantee:
  assumes "ensure_memory_file P fs = Inr fs'"
  shows "path_exists fs' P \<and> path_exists fs' (dirname P)
     \<and> (\<forall>t. read_file fs P = Inr t \<longrightarrow> read_file fs' P = Inr t)
     \<and> (\<forall>fs1. makedirs fs (dirname P) = Inr fs1 \<and> \<not> path_exists fs1 P \<longrightarrow> read_file fs' P = Inr ''{}'')
     \<and> ensure_memory_file P fs' = Inr fs'"
  using ensure_exists[OF assms] ensure_makes_directory[OF assms] ensure_keeps[OF assms]
    ensure_created[OF assms] ensure_idem[OF assms]
  by blast

lemma makedirs_empty_disk:
  "makedirs empty_disk ''memory'' = Inr (empty_disk\<lparr>nodes := (nodes empty_disk)([''app'', ''memory''] \<mapsto> Dir)\<rparr>)"
  by (simp add: makedirs_def start_def empty_disk_def node_at_def)

lemma not_exists_after_mkdir:
  "\<not> path_exists (empty_disk\<lparr>nodes := (nodes empty_disk)([''app'', ''memory''] \<mapsto> Dir)\<rparr>) default_shared_memory_path"
  by (simp add: path_exists_def components_default start_def empty_disk_def node_at_def names_directory_def)

theorem ensure_memory_file_guarantee_witness:
  "\<exists>fs'. ensure_memory_file default_shared_memory_path empty_disk = Inr fs'
     \<and> read_file fs' default_shared_memory_path = Inr ''{}''
     \<and> path_exists fs' ''memory''
     \<and> ensure_memory_file default_shared_memory_path fs' = Inr fs'"
proof -
  have "\<exists>fs'. write_file (empty_disk\<lparr>nodes := (nodes empty_disk)([''app'', ''memory''] \<mapsto> Dir)\<rparr>)
      default_shared_memory_path (json_dumps (JObj [])) = Inr fs'"
    by (simp add: write_file_def file_location_def components_default start_def empty_disk_def
        node_at_def names_directory_def) (simp add: default_shared_memory_path_def)
  then obtain fs' where w: "write_file (empty_disk\<lparr>nodes := (nodes empty_disk)([''app'', ''memory''] \<mapsto> Dir)\<rparr>)
      default_shared_memory_path (json_dumps (JObj [])) = Inr fs'"
    by blast
  have e: "ensure_memory_file default_shared_memory_path empty_disk = Inr fs'"
    using w not_exists_after_mkdir
    by (simp add: ensure_memory_file_def dirname_default makedirs_empty_disk)
  from ensure_memory_file_guarantee[OF e] makedirs_empty_disk not_exists_after_mkdir
  show ?thesis using e by (auto simp: dirname_default)
qed

lemma loads_garbage: "json_loads ''garbage'' = None"
  by code_simp

text \<open>
  Claim C5 as the specification words it fails in two ways: a store file that holds text
  which is not JSON is left as it is, and a regular file named \<open>memory\<close> in the way makes
  the function raise.
\<close>

theorem ensure_memory_file_counterexample:
  "ensure_memory_file default_shared_memory_path (store_holding ''garbage'') = Inr (store_holding ''garbage'')
   \<and> read_file (store_holding ''garbage'') default_shared_memory_path = Inr ''garbage''
   \<and> json_loads ''garbage'' = None
   \<and> ensure_memory_file default_shared_memory_path memory_is_a_file = Inl OSError"
proof -
  have d: "dirname default_shared_memory_path \<noteq> []" by (simp add: dirname_default)
  have "ensure_memory_file default_shared_memory_path memory_is_a_file = Inl OSError"
    by (simp add: ensure_memory_file_def dirname_default makedirs_def start_def memory_is_a_file_def
        node_at_def)
  then show ?thesis
    using ensure_existing[OF read_store_holding d, of "''garbage''"]
    by (simp add: read_store_holding loads_garbage)
qed



lemma wf_trigger_payload: "wf_json (trigger_payload now epoch repo branch ty)"
  by (simp add: trigger_payload_def)





lemma lower_char_slash: "lower_char x = CHR ''/'' \<longleftrightarrow> x = CHR ''/''"
proof -
  have "lower_char x = lower_char (CHR ''/'') \<longleftrightarrow> x = CHR ''/''"
    by (rule lower_char_fixed) (simp_all add: lower_chars_def upper_chars_def)
  moreover have "lower_char (CHR ''/'') = CHR ''/''"
    by (simp add: lower_char_def lower_chars_def upper_chars_def)
  ultimately show ?thesis by simp
qed

lemma slug_char_slash:
  "(if lower_char c = CHR '' '' then CHR ''-'' else lower_char c) = CHR ''/'' \<longleftrightarrow> c = CHR ''/''"
  using lower_char_slash[of c] by auto

lemma slash_map_slug:
  "CHR ''/'' \<in> set (map (\<lambda>c. if lower_char c = CHR '' '' then CHR ''-'' else lower_char c) xs)
     \<longleftrightarrow> CHR ''/'' \<in> set xs"
proof (induction xs)
  case Nil
  then show ?case by simp
next
  case (Cons x xs)
  show ?case using Cons slug_char_slash[of x] by (simp add: eq_commute[of "CHR ''/''"])
qed

lemma safe_title_map:
  "safe_title title = map (\<lambda>c. if lower_char c = CHR '' '' then CHR ''-'' else lower_char c) (take 80 title)"
  by (simp add: safe_title_def replace_def lower_def take_map)

lemma slash_safe_title: "CHR ''/'' \<in> set (safe_title title) \<longleftrightarrow> CHR ''/'' \<in> set (take 80 title)"
  unfolding safe_title_map by (rule slash_map_slug)

lemma length_safe_title: "length (safe_title title) \<le> 80"
  by (simp add: safe_title_def)

lemma slash_str_nat: "CHR ''/'' \<notin> set (str_nat n)"
  using str_nat_digits[of "CHR ''/''" n] by (auto simp: is_digit_def digit_val_def)

lemma slash_zero_pad: "CHR ''/'' \<notin> set (zero_pad w n)"
  using slash_str_nat[of n] by (auto simp: zero_pad_def)

lemma slash_strftime: "CHR ''/'' \<notin> set (strftime_compact now)"
  by (simp add: strftime_compact_def slash_zero_pad slash_str_nat)

lemma slash_filename:
  "CHR ''/'' \<notin> set title \<Longrightarrow> CHR ''/'' \<notin> set (report_filename repo title (strftime_compact now))"
  using slash_safe_title[of title] slash_strftime[of now]
  by (auto simp: report_filename_def replace_def dest: in_set_takeD)

lemma filename_proper: "\<not> names_directory (report_filename repo title ts)"
proof -
  have "last (report_filename repo title ts) = CHR ''d''" "length (report_filename repo title ts) \<ge> 3"
    by (simp_all add: report_filename_def)
  then show ?thesis by (auto simp: names_directory_def)
qed

lemma file_location_join:
  assumes D: "D \<noteq> []" and w: "walk fs (start fs D) (components D) = Inr l"
    and f: "CHR ''/'' \<notin> set f" "\<not> names_directory f"
  shows "file_location fs (path_join D f) = Inr (l @ [f])"
proof -
  have fne: "f \<noteq> []" using f(2) by (auto simp: names_directory_def)
  then have hf: "hd f \<noteq> CHR ''/''" using f(1) by (cases f) auto
  have cf: "components f = [f]" using f(1) by (rule components_noslash)
  show ?thesis
  proof (cases "last D = CHR ''/''")
    case True
    then obtain D' where D': "D = D' @ ''/''" using D by (metis append_butlast_last_id)
    have pj: "path_join D f = D' @ CHR ''/'' # f" using True hf fne D' by (simp add: path_join_def)
    have c: "components (path_join D f) = components D' @ [f]"
      unfolding pj by (simp add: components_append cf)
    have "components D = components D' @ [[]]" using components_append[of D' "[]"] D' by simp
    then have "walk fs (start fs D) (components D') = Inr l"
      using w by (auto simp: walk_snoc split: sum.splits)
    moreover have "start fs (path_join D f) = start fs D"
      using D D' pj by (cases D') (auto simp: start_def)
    ultimately show ?thesis using c f(2) pj by (simp add: file_location_def)
  next
    case False
    then have pj: "path_join D f = D @ CHR ''/'' # f" using hf fne D by (simp add: path_join_def)
    have c: "components (path_join D f) = components D @ [f]"
      unfolding pj by (simp add: components_append cf)
    have "start fs (path_join D f) = start fs D"
      using D pj by (cases D) (auto simp: start_def)
    then show ?thesis using c f(2) pj w by (simp add: file_location_def)
  qed
qed

lemma isdir_join:
  assumes "file_location fs p = Inr l"
  shows "isdir fs p \<longleftrightarrow> node_at fs l = Some Dir"
proof -
  from assms obtain d where d: "p \<noteq> []" "walk fs (start fs p) (butlast (components p)) = Inr d"
    "\<not> names_directory (last (components p))" "l = d @ [last (components p)]"
    by (rule file_locationE)
  have "components p = butlast (components p) @ [last (components p)]"
    using components_nonempty[of p] by simp
  then have "walk fs (start fs p) (components p) = walk fs d [last (components p)]"
    using d(2) walk_snoc[of fs "start fs p" "butlast (components p)" "last (components p)"] by simp
  then show ?thesis using d by (auto simp: isdir_def names_directory_def split: sum.splits)
qed

lemma create_report_file_returns:
  assumes mk: "makedirs fs D = Inr fs1" and t: "CHR ''/'' \<notin> set title"
    and nd: "\<not> isdir fs1 (path_join D (report_filename repo title (strftime_compact now)))"
  shows "\<exists>fs'. create_report_file D now repo title body fs =
      Inr (json_dumps (JObj [(''status'', JStr ''written''),
             (''path'', JStr (path_join D (report_filename repo title (strftime_compact now))))]), fs')"
proof -
  define path where "path = path_join D (report_filename repo title (strftime_compact now))"
  have D: "D \<noteq> []" using mk by (auto simp: makedirs_def split: if_splits)
  then have m: "mkdirs fs (start fs D) (components D) = Inr fs1" using mk by (simp add: makedirs_def)
  obtain l where "walk fs1 (start fs D) (components D) = Inr l" using mkdirs_walk[OF m] by blast
  then have w: "walk fs1 (start fs1 D) (components D) = Inr l"
    using start_extends[OF mkdirs_extends[OF m]] by simp
  have loc: "file_location fs1 path = Inr (l @ [report_filename repo title (strftime_compact now)])"
    unfolding path_def using D w slash_filename[OF t] filename_proper by (rule file_location_join)
  then have "node_at fs1 (l @ [report_filename repo title (strftime_compact now)]) \<noteq> Some Dir"
    using nd isdir_join[OF loc] by (simp add: path_def)
  then have "\<exists>fs'. write_file fs1 path (report_text title (strftime_compact now) body) = Inr fs'"
    using loc by (auto simp: write_file_def split: option.splits node.splits)
  then show ?thesis using mk by (auto simp: create_report_file_def Let_def path_def)
qed

lemma create_report_file_result:
  assumes "create_report_file D now repo title body fs = Inr (res, fs')"
  shows "res = json_dumps (JObj [(''status'', JStr ''written''),
             (''path'', JStr (path_join D (report_filename repo title (strftime_compact now))))])
     \<and> read_file fs' (path_join D (report_filename repo title (strftime_compact now)))
         = Inr (report_text title (strftime_compact now) body)"
proof -
  obtain fs1 where "makedirs fs D = Inr fs1"
    and w: "write_file fs1 (path_join D (report_filename repo title (strftime_compact now)))
        (report_text title (strftime_compact now) body) = Inr fs'"
    and r: "res = json_dumps (JObj [(''status'', JStr ''written''),
             (''path'', JStr (path_join D (report_filename repo title (strftime_compact now))))])"
    using assms by (auto simp: create_report_file_def Let_def split: sum.splits)
  show ?thesis using r read_after_write[OF w] by simp
qed

lemma slug_keeps:
  assumes "c \<notin> set lower_chars" "c \<notin> set upper_chars" "c \<noteq> CHR '' ''" "c \<noteq> CHR ''-''"
  shows "c \<in> set (safe_title title) \<longleftrightarrow> c \<in> set (take 80 title)"
proof -
  have "map_of (zip upper_chars lower_chars) c = None"
    using assms(2) by (auto simp: map_of_eq_None_iff dest: set_zip_leftD)
  then have cc: "lower_char c = c" by (simp add: lower_char_def)
  have g: "(if lower_char x = CHR '' '' then CHR ''-'' else lower_char x) = c \<longleftrightarrow> x = c" for x
    using lower_char_fixed[OF assms(1,2), of x] cc assms(3,4) by auto
  have "c \<in> set (map (\<lambda>c. if lower_char c = CHR '' '' then CHR ''-'' else lower_char c) xs)
     \<longleftrightarrow> c \<in> set xs" for xs
  proof (induction xs)
    case Nil
    then show ?case by simp
  next
    case (Cons x xs)
    show ?case using Cons g[of x] by (simp add: eq_commute[of c])
  qed
  then show ?thesis unfolding safe_title_map .
qed

lemma strftime_early: "strftime_compact early = ''20250102T030405Z''"
  by (simp add: strftime_compact_def zero_pad_def early_def str_nat.simps digit_char_def)

lemma safe_title_example: "safe_title ''My Title!!'' = ''my-title!!''"
  by code_simp

lemma safe_title_escape: "safe_title ''x/../../../escaped'' = ''x/../../../escaped''"
  by code_simp

lemma components_reports: "components default_reports_dir = [''data'', ''reports'']"
  by (simp add: default_reports_dir_def)

lemma makedirs_reports_empty:
  "makedirs empty_disk default_reports_dir
     = Inr (empty_disk\<lparr>nodes := (nodes empty_disk)([''app'', ''data''] \<mapsto> Dir,
                                                    [''app'', ''data'', ''reports''] \<mapsto> Dir)\<rparr>)"
  by (simp add: makedirs_def components_reports start_def empty_disk_def node_at_def)
    (simp add: default_reports_dir_def)

lemma report_filename_example:
  "report_filename ''o/r'' ''My Title!!'' ''20250102T030405Z'' = ''o_r_my-title!!_20250102T030405Z.md''"
  by (simp add: report_filename_def safe_title_example replace_def)

lemma path_example:
  "path_join default_reports_dir ''o_r_my-title!!_20250102T030405Z.md''
     = ''data/reports/o_r_my-title!!_20250102T030405Z.md''"
  by (simp add: path_join_def default_reports_dir_def)

lemma not_isdir_example:
  "\<not> isdir (empty_disk\<lparr>nodes := (nodes empty_disk)([''app'', ''data''] \<mapsto> Dir,
                                                  [''app'', ''data'', ''reports''] \<mapsto> Dir)\<rparr>)
       ''data/reports/o_r_my-title!!_20250102T030405Z.md''"
  by (simp add: isdir_def start_def empty_disk_def node_at_def)


lemma report_filename_escape:
  "report_filename ''o/r'' ''x/../../../escaped'' ''20250102T030405Z''
     = ''o_r_x/../../../escaped_20250102T030405Z.md''"
  by (simp add: report_filename_def safe_title_escape replace_def)

lemma path_escape:
  "path_join default_reports_dir ''o_r_x/../../../escaped_20250102T030405Z.md''
     = ''data/reports/o_r_x/../../../escaped_20250102T030405Z.md''"
  by (simp add: path_join_def default_reports_dir_def)

lemma components_escape:
  "components ''data/reports/o_r_x/../../../escaped_20250102T030405Z.md''
     = [''data'', ''reports'', ''o_r_x'', ''..'', ''..'', ''..'', ''escaped_20250102T030405Z.md'']"
  by simp

lemma makedirs_reports_subdir:
  "makedirs reports_with_subdir default_reports_dir = Inr reports_with_subdir"
  by (simp add: makedirs_def components_reports start_def reports_with_subdir_def node_at_def)
    (simp add: default_reports_dir_def)

lemma walk_reports_subdir:
  "walk reports_with_subdir (start reports_with_subdir default_reports_dir) (components default_reports_dir)
     = Inr [''app'', ''data'', ''reports'']"
  by (simp add: components_reports start_def reports_with_subdir_def node_at_def)
    (simp add: default_reports_dir_def)

lemma file_location_escape:
  "file_location reports_with_subdir ''data/reports/o_r_x/../../../escaped_20250102T030405Z.md''
     = Inr [''app'', ''escaped_20250102T030405Z.md'']"
  unfolding file_location_def components_escape
  by (simp add: start_def reports_with_subdir_def node_at_def names_directory_def)

lemma dumps_written_escape:
  \<open>json_dumps (JObj [(''status'', JStr ''written''),
       (''path'', JStr ''data/reports/o_r_x/../../../escaped_20250102T030405Z.md'')])
   = ''{"status": "written", "path": "data/reports/o_r_x/../../../escaped_20250102T030405Z.md"}''\<close>
  by code_simp

lemma slash_not_letter:
  "CHR ''/'' \<notin> set lower_chars" "CHR ''/'' \<notin> set upper_chars"
  "CHR ''.'' \<notin> set lower_chars" "CHR ''.'' \<notin> set upper_chars"
  by (simp_all add: lower_chars_def upper_chars_def)

text \<open>
  Claim C10. \<open>safe_title\<close> maps each of the first 80 characters of the title to its lower
  case, or to \<open>-\<close> if that is a space, and does nothing else, so a \<open>/\<close> or a \<open>.\<close> of the
  title stays. With the title \<open>x/../../../escaped\<close>, and a directory \<open>o_r_x\<close> in the
  reports directory, the call returns a path in which the \<open>..\<close> lead out of the reports
  directory \<open>/app/data/reports\<close>: the report is written to \<open>/app/escaped_...md\<close>, where
  no file was before. (Without a directory of the name that the part of the file name
  before the first \<open>/\<close> has, \<open>open\<close> fails and the call raises.)
\<close>

theorem title_escapes_reports_dir:
  \<open>safe_title title = map (\<lambda>c. if lower_char c = CHR '' '' then CHR ''-'' else lower_char c) (take 80 title)
   \<and> (CHR ''/'' \<in> set (safe_title title) \<longleftrightarrow> CHR ''/'' \<in> set (take 80 title))
   \<and> (CHR ''.'' \<in> set (safe_title title) \<longleftrightarrow> CHR ''.'' \<in> set (take 80 title))
   \<and> walk reports_with_subdir (start reports_with_subdir default_reports_dir)
         (components default_reports_dir) = Inr [''app'', ''data'', ''reports'']
   \<and> (\<exists>fs'. create_report_file default_reports_dir early ''o/r'' ''x/../../../escaped'' ''body''
               reports_with_subdir
             = Inr (''{"status": "written", "path": "data/reports/o_r_x/../../../escaped_20250102T030405Z.md"}'', fs')
          \<and> file_location fs' ''data/reports/o_r_x/../../../escaped_20250102T030405Z.md''
             = Inr [''app'', ''escaped_20250102T030405Z.md'']
          \<and> nodes reports_with_subdir [''app'', ''escaped_20250102T030405Z.md''] = None
          \<and> nodes fs' [''app'', ''escaped_20250102T030405Z.md'']
             = Some (File (''# x/../../../escaped'' @ [CHR 0x0A, CHR 0x0A]
                           @ ''_Generated: 20250102T030405Z_'' @ [CHR 0x0A, CHR 0x0A] @ ''body'')))
   \<and> take 3 [''app'', ''escaped_20250102T030405Z.md''] \<noteq> [''app'', ''data'', ''reports'']\<close>
proof -
  have 1: "CHR ''/'' \<in> set (safe_title title) \<longleftrightarrow> CHR ''/'' \<in> set (take 80 title)"
    by (rule slug_keeps) (simp_all add: slash_not_letter)
  have 2: "CHR ''.'' \<in> set (safe_title title) \<longleftrightarrow> CHR ''.'' \<in> set (take 80 title)"
    by (rule slug_keeps) (simp_all add: slash_not_letter)
  define fs' where "fs' = reports_with_subdir\<lparr>nodes := (nodes reports_with_subdir)
      ([''app'', ''escaped_20250102T030405Z.md''] \<mapsto>
        File (report_text ''x/../../../escaped'' ''20250102T030405Z'' ''body''))\<rparr>"
  have w: "write_file reports_with_subdir ''data/reports/o_r_x/../../../escaped_20250102T030405Z.md''
      (report_text ''x/../../../escaped'' ''20250102T030405Z'' ''body'') = Inr fs'"
    unfolding write_file_def file_location_escape fs'_def
    by (simp add: node_at_def reports_with_subdir_def)
  have c: \<open>create_report_file default_reports_dir early ''o/r'' ''x/../../../escaped'' ''body''
        reports_with_subdir
      = Inr (''{"status": "written", "path": "data/reports/o_r_x/../../../escaped_20250102T030405Z.md"}'', fs')\<close>
    unfolding create_report_file_def makedirs_reports_subdir strftime_early Let_def
      report_filename_escape path_escape
    by (simp add: w dumps_written_escape)
  have l: "file_location fs' ''data/reports/o_r_x/../../../escaped_20250102T030405Z.md''
      = Inr [''app'', ''escaped_20250102T030405Z.md'']"
    using write_file_location[OF w] file_location_escape by simp
  have n0: "nodes reports_with_subdir [''app'', ''escaped_20250102T030405Z.md''] = None"
    by (simp add: reports_with_subdir_def)
  have n: "nodes fs' [''app'', ''escaped_20250102T030405Z.md'']
      = Some (File (''# x/../../../escaped'' @ [CHR 0x0A, CHR 0x0A]
                           @ ''_Generated: 20250102T030405Z_'' @ [CHR 0x0A, CHR 0x0A] @ ''body''))"
    by (simp add: fs'_def report_text_def)
  have t: "take 3 [''app'', ''escaped_20250102T030405Z.md''] \<noteq> [''app'', ''data'', ''reports'']"
    by simp
  show ?thesis
    using safe_title_map[of title] 1 2 walk_reports_subdir c l n0 n t by blast
qed

lemma loads_validate:
  "json_loads (validate_commit_message m) =
     Some (if re_match True pattern (strip m) then JObj [(''valid'', JBool True)]
           else JObj [(''valid'', JBool False), (''reason'', JStr reason_text)])"
  by (simp add: validate_commit_message_def json_loads_dumps)

lemma loads_read_result:
  assumes "read_shared_memory P key fs = Inr (s, fs')"
  shows "\<exists>v. json_loads s = Some v"
proof -
  obtain stored data where d: "json_loads stored = Some data"
    and s: "s = json_dumps data \<or> (\<exists>k kvs. data = JObj kvs \<and> s = json_dumps (JObj [(k, dict_get kvs k)]))"
    using assms
    by (auto simp: read_shared_memory_def split: sum.splits option.splits json.splits)
  have wf: "wf_json data" using d by (rule json_loads_wf)
  from s show ?thesis
  proof
    assume "s = json_dumps data"
    then show ?thesis using json_loads_dumps[OF wf] by simp
  next
    assume "\<exists>k kvs. data = JObj kvs \<and> s = json_dumps (JObj [(k, dict_get kvs k)])"
    then obtain k kvs where k: "data = JObj kvs" "s = json_dumps (JObj [(k, dict_get kvs k)])" by blast
    have "wf_json (dict_get kvs k)"
      using wf k(1) by (auto simp: dict_get_def split: option.splits dest: map_of_SomeD)
    then have "wf_json (JObj [(k, dict_get kvs k)])" by simp
    then show ?thesis using k(2) json_loads_dumps by blast
  qed
qed

lemma loads_write_result:
  assumes "write_shared_memory P k v fs = Inr (s, fs')" "wf_json v"
  shows "json_loads s = Some (JObj [(''status'', JStr ''ok''), (''key'', JStr k), (''value'', v)])"
proof -
  have "s = json_dumps (JObj [(''status'', JStr ''ok''), (''key'', JStr k), (''value'', v)])"
    using assms(1)
    by (auto simp: write_shared_memory_def split: sum.splits option.splits json.splits)
  moreover have "wf_json (JObj [(''status'', JStr ''ok''), (''key'', JStr k), (''value'', v)])"
    using assms(2) by simp
  ultimately show ?thesis using json_loads_dumps by blast
qed

lemma loads_report_result:
  assumes "create_report_file D now repo title body fs = Inr (s, fs')"
  shows "json_loads s = Some (JObj [(''status'', JStr ''written''),
      (''path'', JStr (path_join D (report_filename repo title (strftime_compact now))))])"
proof -
  have "s = json_dumps (JObj [(''status'', JStr ''written''),
      (''path'', JStr (path_join D (report_filename repo title (strftime_compact now))))])"
    using create_report_file_result[OF assms] by simp
  then show ?thesis by (simp add: json_loads_dumps)
qed

text \<open>
  Claim C9. Each tool returns a text, and the text decodes as JSON: for the validator and
  the pipeline trigger always, for the three tools on the file system whenever they
  return. The decoded value is the dictionary the tool passed to \<open>json.dumps\<close>.
\<close>

theorem tools_return_json_text:
  "json_loads (validate_commit_message m) =
     Some (if re_match True pattern (strip m) then JObj [(''valid'', JBool True)]
           else JObj [(''valid'', JBool False), (''reason'', JStr reason_text)])
   \<and> json_loads (trigger_pipeline now epoch repo branch ty) = Some (trigger_payload now epoch repo branch ty)
   \<and> (\<forall>s fs'. read_shared_memory P key fs = Inr (s, fs') \<longrightarrow> (\<exists>v. json_loads s = Some v))
   \<and> (\<forall>s fs'. wf_json v \<and> write_shared_memory P k v fs = Inr (s, fs') \<longrightarrow>
         json_loads s = Some (JObj [(''status'', JStr ''ok''), (''key'', JStr k), (''value'', v)]))
   \<and> (\<forall>s fs'. create_report_file D now repo title body fs = Inr (s, fs') \<longrightarrow>
         json_loads s = Some (JObj [(''status'', JStr ''written''),
           (''path'', JStr (path_join D (report_filename repo title (strftime_compact now))))]))"
proof -
  have "json_loads (trigger_pipeline now epoch repo branch ty) = Some (trigger_payload now epoch repo branch ty)"
    unfolding trigger_pipeline_def using wf_trigger_payload by (rule json_loads_dumps)
  then show ?thesis
    using loads_validate loads_read_result loads_write_result loads_report_result by blast
qed

lemma write_example:
  "\<exists>fs'. write_shared_memory default_shared_memory_path ''k'' (JInt 7) (store_holding ''{}'')
     = Inr (json_dumps (JObj [(''status'', JStr ''ok''), (''key'', JStr ''k''), (''value'', JInt 7)]), fs')"
  using write_store[OF read_store_holding _ loads_empty_object, of "''k''" "JInt 7"]
  by (auto simp: dirname_default)

lemma read_example:
  "read_shared_memory default_shared_memory_path None (store_holding ''{}'')
     = Inr (json_dumps (JObj []), store_holding ''{}'')"
proof -
  have d: "dirname default_shared_memory_path \<noteq> []" by (simp add: dirname_default)
  show ?thesis
    using read_store[OF read_store_holding[of "''{}''"] d, of None]
    by (simp add: loads_empty_object)
qed

lemma report_example:
  "\<exists>fs'. create_report_file default_reports_dir early ''o/r'' ''My Title!!'' ''body'' empty_disk
     = Inr (json_dumps (JObj [(''status'', JStr ''written''),
          (''path'', JStr ''data/reports/o_r_my-title!!_20250102T030405Z.md'')]), fs')"
  using create_report_file_returns[OF makedirs_reports_empty, of "''My Title!!''" "''o/r''" early "''body''"]
    not_isdir_example
  by (simp add: strftime_early report_filename_example path_example)

theorem tools_return_json_text_witness:
  "(\<exists>v. json_loads (json_dumps (JObj [])) = Some v)
   \<and> json_loads (json_dumps (JObj [(''status'', JStr ''ok''), (''key'', JStr ''k''), (''value'', JInt 7)]))
       = Some (JObj [(''status'', JStr ''ok''), (''key'', JStr ''k''), (''value'', JInt 7)])
   \<and> json_loads (json_dumps (JObj [(''status'', JStr ''written''),
          (''path'', JStr ''data/reports/o_r_my-title!!_20250102T030405Z.md'')]))
       = Some (JObj [(''status'', JStr ''written''),
          (''path'', JStr ''data/reports/o_r_my-title!!_20250102T030405Z.md'')])"
proof -
  note t = tools_return_json_text[where P = default_shared_memory_path and key = None
      and fs = "store_holding ''{}''" and v = "JInt 7" and k = "''k''"]
  note u = tools_return_json_text[where D = default_reports_dir and now = early and repo = "''o/r''"
      and title = "''My Title!!''" and body = "''body''" and fs = empty_disk]
  have w: "wf_json (JInt 7)" by simp
  obtain fs1 where 1: "write_shared_memory default_shared_memory_path ''k'' (JInt 7) (store_holding ''{}'')
     = Inr (json_dumps (JObj [(''status'', JStr ''ok''), (''key'', JStr ''k''), (''value'', JInt 7)]), fs1)"
    using write_example by blast
  obtain fs2 where 2: "create_report_file default_reports_dir early ''o/r'' ''My Title!!'' ''body'' empty_disk
     = Inr (json_dumps (JObj [(''status'', JStr ''written''),
          (''path'', JStr ''data/reports/o_r_my-title!!_20250102T030405Z.md'')]), fs2)"
    using report_example by blast
  have a: "\<exists>v. json_loads (json_dumps (JObj [])) = Some v"
    using t read_example by blast
  have b: "json_loads (json_dumps (JObj [(''status'', JStr ''ok''), (''key'', JStr ''k''), (''value'', JInt 7)]))
       = Some (JObj [(''status'', JStr ''ok''), (''key'', JStr ''k''), (''value'', JInt 7)])"
    using t w 1 by blast
  have c: "json_loads (json_dumps (JObj [(''status'', JStr ''written''),
          (''path'', JStr ''data/reports/o_r_my-title!!_20250102T030405Z.md'')]))
       = Some (JObj [(''status'', JStr ''written''),
          (''path'', JStr (path_join default_reports_dir
             (report_filename ''o/r'' ''My Title!!'' (strftime_compact early))))])"
    using u 2 by blast
  show ?thesis using a b c
    unfolding strftime_early report_filename_example path_example by blast
qed

subsection \<open>The name and the text of a report\<close>








end
